theory Spec2Isabelle
  imports Complex_Main
begin

text \<open>
  A shallow embedding of \<^verbatim>\<open>src/Derivative.cpp\<close>, the reverse mode differentiation of
  Halide pipelines: the bounds of call arguments (\<^verbatim>\<open>get_min_max_bounds\<close>, \<^verbatim>\<open>merge_bounds\<close>),
  the visitors \<^verbatim>\<open>FunctionSorter\<close>, \<^verbatim>\<open>ExpressionSorter\<close>, \<^verbatim>\<open>BoundsInferencer\<close> and
  \<^verbatim>\<open>ReverseAccumulationVisitor\<close>, and the entry point \<^verbatim>\<open>propagate_adjoints\<close>. The debug
  output (\<^verbatim>\<open>debug(0)\<close>, \<^verbatim>\<open>print_func\<close>) has no effect on the state and is left out.
\<close>

section \<open>Expression graph\<close>

text \<open>
  An \<^verbatim>\<open>Expr\<close> is a handle to an immutable, reference counted IR node. Every node of the
  model carries the address of the object it stands for: the visited sets of the graph
  visitors and the keys of \<^verbatim>\<open>accumulated_adjoints\<close> are such addresses, so two nodes of the
  same shape are the same node only when their addresses agree.

  Nodes that the pass itself builds (through the arithmetic operators on \<^verbatim>\<open>Expr\<close>) are new
  objects. The pass never uses one of them as a key and never records one in a visited set
  whose content it reads back, so the model gives all of them the address \<open>fresh\<close>.
\<close>

type_synonym addr = nat

definition fresh :: addr where
  "fresh = 0"

datatype htype = Int_t nat | UInt_t nat | Float_t nat

datatype call_type = Image | Extern | PureExtern | Halide | Intrinsic | PureIntrinsic

text \<open>The binary node types: each is a node with the two operands \<^verbatim>\<open>a\<close> and \<^verbatim>\<open>b\<close>.\<close>

datatype binop =
  Add | Sub | Mul | Div | Mod | MinOp | MaxOp
  | EQ | NE | LT | LE | GT | GE | AndOp | OrOp

text \<open>
  \<^verbatim>\<open>Variable::reduction_domain\<close> is the domain a reduction variable ranges over; it is
  undefined (\<open>None\<close>) for a plain variable. A call to a Halide function holds the function;
  the model holds its name (Halide function names are unique) and resolves it in a function
  environment, since a function may call itself from an update stage.
\<close>

datatype expr =
    IntImm addr int
  | FloatImm addr real
  | Variable addr string "reduction_variable list option"
  | Cast addr htype expr
  | Bin addr binop expr expr
  | NotOp addr expr
  | Select addr expr expr expr
  | Call addr string call_type "string option" "expr list"
  | LetIn addr string expr expr
and reduction_variable =
    ReductionVariable (rv_var: string) (rv_min: expr) (rv_extent: expr)

type_synonym rdom = "reduction_variable list"

fun addr_of :: "expr \<Rightarrow> addr" where
  "addr_of (IntImm p v) = p"
| "addr_of (FloatImm p v) = p"
| "addr_of (Variable p n d) = p"
| "addr_of (Cast p t v) = p"
| "addr_of (Bin p f a b) = p"
| "addr_of (NotOp p a) = p"
| "addr_of (Select p c t f) = p"
| "addr_of (Call p n ct fn as) = p"
| "addr_of (LetIn p n v b) = p"

text \<open>
  The operators of \<^verbatim>\<open>IROperator.h\<close> used by the pass. Each builds one new node (the
  implicit conversions between operand types are left out).
\<close>

definition op_add :: "expr \<Rightarrow> expr \<Rightarrow> expr" where
  "op_add a b = Bin fresh Add a b"

definition op_sub :: "expr \<Rightarrow> expr \<Rightarrow> expr" where
  "op_sub a b = Bin fresh Sub a b"

definition op_mul :: "expr \<Rightarrow> expr \<Rightarrow> expr" where
  "op_mul a b = Bin fresh Mul a b"

definition op_div :: "expr \<Rightarrow> expr \<Rightarrow> expr" where
  "op_div a b = Bin fresh Div a b"

definition op_min :: "expr \<Rightarrow> expr \<Rightarrow> expr" where
  "op_min a b = Bin fresh MinOp a b"

definition op_max :: "expr \<Rightarrow> expr \<Rightarrow> expr" where
  "op_max a b = Bin fresh MaxOp a b"

definition op_le :: "expr \<Rightarrow> expr \<Rightarrow> expr" where
  "op_le a b = Bin fresh LE a b"

definition op_ge :: "expr \<Rightarrow> expr \<Rightarrow> expr" where
  "op_ge a b = Bin fresh GE a b"

definition op_eq :: "expr \<Rightarrow> expr \<Rightarrow> expr" where
  "op_eq a b = Bin fresh EQ a b"

definition int_const :: "int \<Rightarrow> expr" where
  "int_const v = IntImm fresh v"

definition float_const :: "real \<Rightarrow> expr" where
  "float_const v = FloatImm fresh v"

text \<open>Unary minus is \<^verbatim>\<open>Sub::make(make_zero(type), a)\<close>; the adjoints are floats.\<close>

definition op_neg :: "expr \<Rightarrow> expr" where
  "op_neg a = Bin fresh Sub (float_const 0) a"

definition select_expr :: "expr \<Rightarrow> expr \<Rightarrow> expr \<Rightarrow> expr" where
  "select_expr c t f = Select fresh c t f"

definition exp_expr :: "expr \<Rightarrow> expr" where
  "exp_expr x = Call fresh ''exp_f32'' PureExtern None [x]"

section \<open>Ends of a run without a result\<close>

text \<open>
  A run that does not return ends in one of two ways. \<open>Fatal e\<close>: the code ends the pass
  itself, by \<^verbatim>\<open>internal_error\<close>, by a failed \<^verbatim>\<open>assert\<close>, or because a function of the host
  reports an error. \<open>Undefined\<close>: the code reads a \<^verbatim>\<open>std::vector\<close> past its end without a
  check; it signals nothing there and the language does not define what happens next, so
  the model follows the run no further.
\<close>

datatype error =
    CantInferBounds
  | CantSolveInverse
  | AssertionFailed
  | UndefinedFunction
  | HostError

datatype stop = Fatal error | Undefined

section \<open>Functions\<close>

text \<open>
  A \<^verbatim>\<open>Func\<close>: its name, its domain variables, the value of the initialization (stage \<open>-1\<close>)
  and the values of the update stages \<open>0 .. n - 1\<close>. A \<^verbatim>\<open>FuncKey\<close> is a function name and a
  stage.
\<close>

record func =
  func_name :: string
  func_args :: "string list"
  func_value :: expr
  func_updates :: "expr list"

type_synonym func_key = "string \<times> int"

type_synonym func_bounds_t = "(expr \<times> expr) list"

definition num_update_definitions :: "func \<Rightarrow> int" where
  "num_update_definitions f = int (length (func_updates f))"

definition update_value :: "func \<Rightarrow> int \<Rightarrow> expr" where
  "update_value f update_id = func_updates f ! nat update_id"

text \<open>The functions of the pipeline, found by name from a call node.\<close>

type_synonym fenv = "func list"

definition lookup_func :: "fenv \<Rightarrow> string option \<Rightarrow> func option" where
  "lookup_func env fn = (case fn of None \<Rightarrow> None | Some n \<Rightarrow> find (\<lambda>f. func_name f = n) env)"

text \<open>
  \<^verbatim>\<open>RDom(ranges)\<close> makes one reduction variable per pair, reading the pair as
  (minimum, extent); the variables are named after the dimension.
\<close>

definition rvar_name :: "nat \<Rightarrow> string" where
  "rvar_name i = (if i < 4 then [''r$x'', ''r$y'', ''r$z'', ''r$w''] ! i else ''r$'' @ replicate i CHR ''i'')"

definition RDom_of :: "(expr \<times> expr) list \<Rightarrow> rdom" where
  "RDom_of ranges =
     map (\<lambda>i. ReductionVariable (rvar_name i) (fst (ranges ! i)) (snd (ranges ! i))) [0..<length ranges]"

section \<open>Functions of the host\<close>

text \<open>
  The functions of Halide that the code calls and that are not part of this file: the
  simplifier, the equation solver, the boundary condition, the conversion of an \<^verbatim>\<open>RDom\<close>
  to an expression (used where \<^verbatim>\<open>current_bounds\<close> is passed to \<^verbatim>\<open>substitute\<close>), and
  \<^verbatim>\<open>RDom::operator[]\<close> for an index that is not a dimension of the domain:
  \<open>rdom_past_end h b i\<close> is what \<^verbatim>\<open>{b[i].min(), b[i].extent()}\<close> gives then. They are
  parameters of the model.
\<close>

record solver_result =
  sr_result :: expr
  fully_solved :: bool

record host =
  simplify :: "expr \<Rightarrow> expr"
  solve_expression :: "expr \<Rightarrow> string \<Rightarrow> solver_result"
  constant_exterior :: "func \<Rightarrow> expr \<Rightarrow> (expr \<times> expr) list \<Rightarrow> func"
  rdom_as_expr :: "rdom \<Rightarrow> stop + expr"
  rdom_past_end :: "rdom \<Rightarrow> nat \<Rightarrow> stop + (expr \<times> expr)"

section \<open>Results that may fail or run out of fuel\<close>

text \<open>
  The recursion through the function graph is bounded by its depth only when the graph has
  no cycle; the model counts the nesting of functions with fuel. \<open>None\<close> is a run that
  needs more fuel, \<open>Some (Inl e)\<close> a run that ends without a result, \<open>Some (Inr s)\<close> a normal return.
\<close>

type_synonym 'a result = "(stop + 'a) option"

definition bind_r :: "'a result \<Rightarrow> ('a \<Rightarrow> 'b result) \<Rightarrow> 'b result" where
  "bind_r m f = (case m of None \<Rightarrow> None | Some (Inl e) \<Rightarrow> Some (Inl e) | Some (Inr x) \<Rightarrow> f x)"

definition ok :: "'a \<Rightarrow> 'a result" where
  "ok x = Some (Inr x)"

definition fail :: "error \<Rightarrow> 'a result" where
  "fail e = Some (Inl (Fatal e))"

definition lift_r :: "stop + 'a \<Rightarrow> 'a result" where
  "lift_r x = Some x"

section \<open>Bounds of one call argument\<close>

text \<open>
  The loop over \<^verbatim>\<open>current_args\<close> in the plain variable branch: the first argument with the
  variable's name gives the pair; when none has it the control falls through to the
  \<^verbatim>\<open>internal_error\<close> at the end of the function.
\<close>

function var_bounds_loop :: "host \<Rightarrow> string list \<Rightarrow> rdom \<Rightarrow> string \<Rightarrow> nat \<Rightarrow> stop + (expr \<times> expr)" where
  "var_bounds_loop h current_args current_bounds name i =
     (if i < length current_args then
        (if current_args ! i = name then
           (if i < length current_bounds
            then Inr (rv_min (current_bounds ! i), rv_extent (current_bounds ! i))
            else rdom_past_end h current_bounds i)
         else var_bounds_loop h current_args current_bounds name (i + 1))
      else Inl (Fatal CantInferBounds))"
  by pat_completeness auto
termination
  by (relation "measure (\<lambda>(h, current_args, current_bounds, name, i). length current_args - i)") auto

declare var_bounds_loop.simps [simp del]

text \<open>
  \<^verbatim>\<open>get_min_max_bounds\<close>, branch by branch in the order of the source. The branch of a
  reduction variable reads \<^verbatim>\<open>var->reduction_domain.domain()[index]\<close>: \<open>index\<close> is the position
  of the call argument, and the read of the vector is not checked, so past the end of the
  domain the run is \<open>Undefined\<close>. The branch of a plain variable reads \<^verbatim>\<open>current_bounds[i]\<close>
  through \<^verbatim>\<open>RDom::operator[]\<close>; where the domain has no dimension \<open>i\<close> the host decides.
\<close>

fun get_min_max_bounds ::
  "host \<Rightarrow> expr \<Rightarrow> string list \<Rightarrow> rdom \<Rightarrow> nat \<Rightarrow> stop + (expr \<times> expr)" where
  "get_min_max_bounds h (Bin p Add a b) current_args current_bounds index =
     (case get_min_max_bounds h a current_args current_bounds index of
        Inl e \<Rightarrow> Inl e
      | Inr a_bounds \<Rightarrow>
          (case get_min_max_bounds h b current_args current_bounds index of
             Inl e \<Rightarrow> Inl e
           | Inr b_bounds \<Rightarrow>
               Inr (op_add (fst a_bounds) (fst b_bounds), op_add (snd a_bounds) (snd b_bounds))))"
| "get_min_max_bounds h (Bin p Sub a b) current_args current_bounds index =
     (case get_min_max_bounds h a current_args current_bounds index of
        Inl e \<Rightarrow> Inl e
      | Inr a_bounds \<Rightarrow>
          (case get_min_max_bounds h b current_args current_bounds index of
             Inl e \<Rightarrow> Inl e
           | Inr b_bounds \<Rightarrow>
               Inr (op_sub (fst a_bounds) (snd b_bounds), op_sub (snd a_bounds) (fst b_bounds))))"
| "get_min_max_bounds h (Variable p name (Some domain)) current_args current_bounds index =
     (if index < length domain
      then Inr (rv_min (domain ! index),
                op_sub (op_add (rv_min (domain ! index)) (rv_extent (domain ! index))) (int_const 1))
      else Inl Undefined)"
| "get_min_max_bounds h (Variable p name None) current_args current_bounds index =
     var_bounds_loop h current_args current_bounds name 0"
| "get_min_max_bounds h (Bin p MaxOp a b) current_args current_bounds index =
     (case get_min_max_bounds h a current_args current_bounds index of
        Inl e \<Rightarrow> Inl e
      | Inr a_bounds \<Rightarrow>
          (case get_min_max_bounds h b current_args current_bounds index of
             Inl e \<Rightarrow> Inl e
           | Inr b_bounds \<Rightarrow>
               Inr (op_max (fst a_bounds) (fst b_bounds), op_max (snd a_bounds) (snd b_bounds))))"
| "get_min_max_bounds h (Bin p MinOp a b) current_args current_bounds index =
     (case get_min_max_bounds h a current_args current_bounds index of
        Inl e \<Rightarrow> Inl e
      | Inr a_bounds \<Rightarrow>
          (case get_min_max_bounds h b current_args current_bounds index of
             Inl e \<Rightarrow> Inl e
           | Inr b_bounds \<Rightarrow>
               Inr (op_min (fst a_bounds) (fst b_bounds), op_min (snd a_bounds) (snd b_bounds))))"
| "get_min_max_bounds h (IntImm p v) current_args current_bounds index =
     Inr (IntImm p v, IntImm p v)"
| "get_min_max_bounds h e current_args current_bounds index = Inl (Fatal CantInferBounds)"


section \<open>Merging the bounds of two call sites\<close>

definition merge_bounds ::
  "host \<Rightarrow> expr \<times> expr \<Rightarrow> expr \<times> expr \<Rightarrow> expr \<times> expr" where
  "merge_bounds h bounds0 bounds1 =
     (simplify h (op_min (fst bounds0) (fst bounds1)), simplify h (op_max (snd bounds0) (snd bounds1)))"

section \<open>Bounds inference\<close>

record bounds_inferencer =
  recursion_depth :: int
  func_bounds :: "func_key \<rightharpoonup> func_bounds_t"
  current_func_key :: func_key
  current_args :: "string list"
  current_bounds :: rdom

text \<open>The first loop of \<^verbatim>\<open>visit(Call)\<close>: the bounds of the arguments, in order.\<close>

function arg_bounds_loop ::
  "host \<Rightarrow> expr list \<Rightarrow> string list \<Rightarrow> rdom \<Rightarrow> nat \<Rightarrow> func_bounds_t \<Rightarrow> stop + func_bounds_t" where
  "arg_bounds_loop h args cur_args cur_bounds i arg_bounds =
     (if i < length args then
        (case get_min_max_bounds h (args ! i) cur_args cur_bounds i of
           Inl e \<Rightarrow> Inl e
         | Inr min_max_bounds \<Rightarrow>
             arg_bounds_loop h args cur_args cur_bounds (i + 1) (arg_bounds @ [min_max_bounds]))
      else Inr arg_bounds)"
  by pat_completeness auto
termination
  by (relation "measure (\<lambda>(h, args, cur_args, cur_bounds, i, arg_bounds). length args - i)") auto

declare arg_bounds_loop.simps [simp del]

text \<open>The merge loop: \<^verbatim>\<open>arg_bounds[i] = merge_bounds(prev_bounds[i], arg_bounds[i])\<close>.\<close>

function merge_loop ::
  "host \<Rightarrow> func_bounds_t \<Rightarrow> nat \<Rightarrow> func_bounds_t \<Rightarrow> func_bounds_t" where
  "merge_loop h prev_bounds i arg_bounds =
     (if i < length arg_bounds then
        merge_loop h prev_bounds (i + 1)
          (arg_bounds[i := merge_bounds h (prev_bounds ! i) (arg_bounds ! i)])
      else arg_bounds)"
  by pat_completeness auto
termination
  by (relation "measure (\<lambda>(h, prev_bounds, i, arg_bounds). length arg_bounds - i)") auto

declare merge_loop.simps [simp del]

text \<open>The key a call records under: the previous stage for a call of the current function
  to itself, the last update stage of the callee otherwise.\<close>

definition call_key :: "func_key \<Rightarrow> func \<Rightarrow> func_key" where
  "call_key cur func =
     (if fst cur = func_name func
      then (func_name func, snd cur - 1)
      else (func_name func, num_update_definitions func - 1))"

text \<open>
  \<^verbatim>\<open>visit(Call)\<close> for a call of a Halide function, up to the assignment
  \<^verbatim>\<open>func_bounds[key] = arg_bounds\<close>.
\<close>

definition record_call_bounds ::
  "host \<Rightarrow> func \<Rightarrow> expr list \<Rightarrow> bounds_inferencer \<Rightarrow> stop + bounds_inferencer" where
  "record_call_bounds h func args s =
     (case arg_bounds_loop h args (current_args s) (current_bounds s) 0 [] of
        Inl e \<Rightarrow> Inl e
      | Inr arg_bounds \<Rightarrow>
          (let key = call_key (current_func_key s) func in
           (case func_bounds s key of
              None \<Rightarrow> Inr (s\<lparr>func_bounds := (func_bounds s)(key \<mapsto> arg_bounds)\<rparr>)
            | Some prev_bounds \<Rightarrow>
                (if length arg_bounds = length prev_bounds
                 then Inr (s\<lparr>func_bounds :=
                            (func_bounds s)(key \<mapsto> merge_loop h prev_bounds 0 arg_bounds)\<rparr>)
                 else Inl (Fatal AssertionFailed)))))"

text \<open>
  \<^verbatim>\<open>visit(Call)\<close> and \<^verbatim>\<open>inference(Func)\<close>. The visitor is a plain \<^verbatim>\<open>IRVisitor\<close>: every node
  other than a call visits its operands in order. The stage loop runs from the last update
  down to the initialization; every stage reads its context from \<^verbatim>\<open>func_bounds\<close>, where a
  key that is absent gives the empty vector.
\<close>

definition stage_context :: "func \<Rightarrow> int \<Rightarrow> bounds_inferencer \<Rightarrow> bounds_inferencer" where
  "stage_context f update_id s =
     (let key = (func_name f, update_id);
          fb = (case func_bounds s key of None \<Rightarrow> [] | Some b \<Rightarrow> b)
      in s\<lparr>func_bounds := (func_bounds s)(key \<mapsto> fb),
           current_func_key := key,
           current_bounds := RDom_of fb,
           current_args := func_args f\<rparr>)"

definition stage_expr :: "func \<Rightarrow> int \<Rightarrow> expr" where
  "stage_expr f update_id = (if update_id \<ge> 0 then update_value f update_id else func_value f)"

function (sequential)
  bi_visit :: "host \<Rightarrow> fenv \<Rightarrow> nat \<Rightarrow> expr \<Rightarrow> bounds_inferencer \<Rightarrow> bounds_inferencer result"
  and bi_visit_args ::
    "host \<Rightarrow> fenv \<Rightarrow> nat \<Rightarrow> expr list \<Rightarrow> bounds_inferencer \<Rightarrow> bounds_inferencer result"
  and bi_stages ::
    "host \<Rightarrow> fenv \<Rightarrow> nat \<Rightarrow> func \<Rightarrow> int \<Rightarrow> bounds_inferencer \<Rightarrow> bounds_inferencer result"
  and bi_inference_func ::
    "host \<Rightarrow> fenv \<Rightarrow> nat \<Rightarrow> func \<Rightarrow> bounds_inferencer \<Rightarrow> bounds_inferencer result"
where
  "bi_visit h env fuel (Call p name ct fn args) s =
     (if ct = Halide then
        (case lookup_func env fn of
           None \<Rightarrow> fail UndefinedFunction
         | Some func \<Rightarrow>
             bind_r (lift_r (record_call_bounds h func args s)) (\<lambda>s1.
               if fst (current_func_key s) \<noteq> func_name func then
                 (case fuel of
                    0 \<Rightarrow> None
                  | Suc fuel' \<Rightarrow>
                      bind_r (bi_inference_func h env fuel' func
                                (s1\<lparr>recursion_depth := recursion_depth s1 + 1\<rparr>))
                        (\<lambda>s2. ok (s2\<lparr>recursion_depth := recursion_depth s2 - 1\<rparr>)))
               else ok s1))
      else bi_visit_args h env fuel args s)"
| "bi_visit h env fuel (Cast p t v) s = bi_visit h env fuel v s"
| "bi_visit h env fuel (Bin p f a b) s =
     bind_r (bi_visit h env fuel a s) (\<lambda>s1. bi_visit h env fuel b s1)"
| "bi_visit h env fuel (NotOp p a) s = bi_visit h env fuel a s"
| "bi_visit h env fuel (Select p c t f) s =
     bind_r (bi_visit h env fuel c s) (\<lambda>s1.
     bind_r (bi_visit h env fuel t s1) (\<lambda>s2. bi_visit h env fuel f s2))"
| "bi_visit h env fuel (LetIn p n v b) s =
     bind_r (bi_visit h env fuel v s) (\<lambda>s1. bi_visit h env fuel b s1)"
| "bi_visit h env fuel e s = ok s"
| "bi_visit_args h env fuel [] s = ok s"
| "bi_visit_args h env fuel (a # as) s =
     bind_r (bi_visit h env fuel a s) (\<lambda>s1. bi_visit_args h env fuel as s1)"
| "bi_stages h env fuel f update_id s =
     (if update_id \<ge> -1 then
        bind_r (bi_visit h env fuel (stage_expr f update_id) (stage_context f update_id s))
          (\<lambda>s1. bi_stages h env fuel f (update_id - 1) s1)
      else ok s)"
| "bi_inference_func h env fuel f s =
     bind_r (bi_stages h env fuel f (num_update_definitions f - 1) s) (\<lambda>s1.
       ok (s1\<lparr>current_func_key := current_func_key s,
              current_args := current_args s,
              current_bounds := current_bounds s\<rparr>))"
  by pat_completeness auto
termination
  by (relation
       "inv_image (less_than <*lex*> less_than <*lex*> less_than)
          (\<lambda>x. case x of
             Inl (Inl (h, env, fuel, e, s)) \<Rightarrow> (fuel, 0::nat, size e)
           | Inl (Inr (h, env, fuel, es, s)) \<Rightarrow> (fuel, 0, size_list size es)
           | Inr (Inl (h, env, fuel, f, update_id, s)) \<Rightarrow> (fuel, 1, nat (update_id + 2))
           | Inr (Inr (h, env, fuel, f, s)) \<Rightarrow> (fuel, 2, 0))")
     auto

declare bi_stages.simps [simp del]

text \<open>\<^verbatim>\<open>inference(Expr)\<close>: the entry point, from a cleared state.\<close>

definition bi_init :: bounds_inferencer where
  "bi_init = \<lparr>recursion_depth = 0, func_bounds = Map.empty, current_func_key = ('''', -1),
              current_args = [], current_bounds = []\<rparr>"

definition bi_inference :: "host \<Rightarrow> fenv \<Rightarrow> nat \<Rightarrow> expr \<Rightarrow> bounds_inferencer result" where
  "bi_inference h env fuel e = bi_visit h env fuel e bi_init"

text \<open>\<^verbatim>\<open>get_func_bounds\<close>: every (minimum, maximum) pair becomes (lower bound, extent).\<close>

definition min_extent_bounds :: "host \<Rightarrow> func_bounds_t \<Rightarrow> func_bounds_t" where
  "min_extent_bounds h b =
     map (\<lambda>mm. (let lower_bound = simplify h (fst mm);
                    extent = simplify h (op_add (op_sub (snd mm) lower_bound) (int_const 1))
                in (lower_bound, extent))) b"

definition get_func_bounds :: "host \<Rightarrow> bounds_inferencer \<Rightarrow> (func_key \<rightharpoonup> rdom)" where
  "get_func_bounds h s =
     (\<lambda>key. case func_bounds s key of
               None \<Rightarrow> None
             | Some b \<Rightarrow> Some (RDom_of (min_extent_bounds h b)))"

section \<open>Finding a variable, substitution\<close>

text \<open>
  \<^verbatim>\<open>VariableFinder::find\<close> walks the expression with the graph visitor of the host and sets
  \<^verbatim>\<open>found\<close> at every \<^verbatim>\<open>Variable\<close> node of the given name. The visited set of the walk only
  saves a second walk of a shared node and \<^verbatim>\<open>found\<close> is never reset, so the result is
  whether some variable node of the expression has the name.
\<close>

fun find_var :: "expr \<Rightarrow> string \<Rightarrow> bool"
  and find_var_list :: "expr list \<Rightarrow> string \<Rightarrow> bool" where
  "find_var (IntImm p v) var_name = False"
| "find_var (FloatImm p v) var_name = False"
| "find_var (Variable p name d) var_name = (name = var_name)"
| "find_var (Cast p t v) var_name = find_var v var_name"
| "find_var (Bin p f a b) var_name = (find_var a var_name \<or> find_var b var_name)"
| "find_var (NotOp p a) var_name = find_var a var_name"
| "find_var (Select p c t f) var_name =
     (find_var c var_name \<or> find_var t var_name \<or> find_var f var_name)"
| "find_var (Call p name ct fn args) var_name = find_var_list args var_name"
| "find_var (LetIn p name v b) var_name = (find_var v var_name \<or> find_var b var_name)"
| "find_var_list [] var_name = False"
| "find_var_list (a # as) var_name = (find_var a var_name \<or> find_var_list as var_name)"

text \<open>
  Modelled from the spec: the substitution operator of the host (\<^verbatim>\<open>Substitute.h\<close>), which
  "replaces every free occurrence of a named variable inside an expression with another
  expression". A let that binds the name again hides it in its body. A node whose operands
  did not change is returned as it is; a node with a changed operand is a new node.
\<close>

fun substitute :: "string \<Rightarrow> expr \<Rightarrow> expr \<Rightarrow> expr"
  and substitute_list :: "string \<Rightarrow> expr \<Rightarrow> expr list \<Rightarrow> expr list" where
  "substitute n r (IntImm p v) = IntImm p v"
| "substitute n r (FloatImm p v) = FloatImm p v"
| "substitute n r (Variable p name d) = (if name = n then r else Variable p name d)"
| "substitute n r (Cast p t v) =
     (let v' = substitute n r v in if v' = v then Cast p t v else Cast fresh t v')"
| "substitute n r (Bin p f a b) =
     (let a' = substitute n r a; b' = substitute n r b
      in if a' = a \<and> b' = b then Bin p f a b else Bin fresh f a' b')"
| "substitute n r (NotOp p a) =
     (let a' = substitute n r a in if a' = a then NotOp p a else NotOp fresh a')"
| "substitute n r (Select p c t f) =
     (let c' = substitute n r c; t' = substitute n r t; f' = substitute n r f
      in if c' = c \<and> t' = t \<and> f' = f then Select p c t f else Select fresh c' t' f')"
| "substitute n r (Call p name ct fn args) =
     (let args' = substitute_list n r args
      in if args' = args then Call p name ct fn args else Call fresh name ct fn args')"
| "substitute n r (LetIn p name v b) =
     (let v' = substitute n r v; b' = (if name = n then b else substitute n r b)
      in if v' = v \<and> b' = b then LetIn p name v b else LetIn fresh name v' b')"
| "substitute_list n r [] = []"
| "substitute_list n r (a # as) = substitute n r a # substitute_list n r as"

text \<open>A \<^verbatim>\<open>Var\<close> used as an expression is a new plain variable node.\<close>

definition var_expr :: "string \<Rightarrow> expr" where
  "var_expr name = Variable fresh name None"

section \<open>Topological order of an expression\<close>

text \<open>
  \<^verbatim>\<open>ExpressionSorter\<close> is a graph visitor: \<^verbatim>\<open>visited\<close> holds the addresses of the nodes
  already included. Every node type but the call keeps the rule of the host's graph
  visitor, which includes the operands in order.
\<close>

record expression_sorter =
  es_visited :: "addr set"
  expr_list :: "expr list"

function (sequential)
  es_include :: "expr \<Rightarrow> expression_sorter \<Rightarrow> expression_sorter"
  and es_accept :: "expr \<Rightarrow> expression_sorter \<Rightarrow> expression_sorter"
  and es_include_args :: "expr list \<Rightarrow> expression_sorter \<Rightarrow> expression_sorter" where
  "es_include e s =
     (if addr_of e \<in> es_visited s then s
      else (let s1 = es_accept e (s\<lparr>es_visited := insert (addr_of e) (es_visited s)\<rparr>)
            in s1\<lparr>expr_list := expr_list s1 @ [e]\<rparr>))"
| "es_accept (Call p name ct fn args) s =
     (if ct = Halide \<or> ct = Image then s else es_include_args args s)"
| "es_accept (Cast p t v) s = es_include v s"
| "es_accept (Bin p f a b) s = es_include b (es_include a s)"
| "es_accept (NotOp p a) s = es_include a s"
| "es_accept (Select p c t f) s = es_include f (es_include t (es_include c s))"
| "es_accept (LetIn p name v b) s = es_include b (es_include v s)"
| "es_accept e s = s"
| "es_include_args [] s = s"
| "es_include_args (a # as) s = es_include_args as (es_include a s)"
  by pat_completeness auto
termination
  by (relation
       "inv_image (less_than <*lex*> less_than)
          (\<lambda>x. case x of
             Inl (e, s) \<Rightarrow> (size e, 1::nat)
           | Inr (Inl (e, s)) \<Rightarrow> (size e, 0)
           | Inr (Inr (es, s)) \<Rightarrow> (size_list size es, 0))")
     auto

declare es_include.simps [simp del]

definition es_sort :: "expr \<Rightarrow> expression_sorter" where
  "es_sort e =
     (let s = es_accept e \<lparr>es_visited = {}, expr_list = []\<rparr>
      in s\<lparr>expr_list := expr_list s @ [e]\<rparr>)"

definition get_expr_list :: "expr \<Rightarrow> expr list" where
  "get_expr_list e = expr_list (es_sort e)"

section \<open>Reverse accumulation\<close>

record reverse_accumulation_visitor =
  accumulated_adjoints :: "addr \<rightharpoonup> expr"
  adjoint_funcs :: "func_key \<rightharpoonup> func"
  let_var_mapping :: "string \<rightharpoonup> expr"
  ra_func_bounds :: "func_key \<rightharpoonup> rdom"
  ra_current_func_key :: func_key
  ra_current_bounds :: rdom

definition rdom_to_vector :: "rdom \<Rightarrow> (expr \<times> expr) list" where
  "rdom_to_vector bounds = map (\<lambda>rvar. (rv_min rvar, rv_extent rvar)) bounds"

definition accumulate ::
  "expr \<Rightarrow> expr \<Rightarrow> reverse_accumulation_visitor \<Rightarrow> reverse_accumulation_visitor" where
  "accumulate stub adjoint s =
     (let stub_ptr = addr_of stub in
      case accumulated_adjoints s stub_ptr of
        None \<Rightarrow> s\<lparr>accumulated_adjoints := (accumulated_adjoints s)(stub_ptr \<mapsto> adjoint)\<rparr>
      | Some prev \<Rightarrow>
          s\<lparr>accumulated_adjoints := (accumulated_adjoints s)(stub_ptr \<mapsto> op_add prev adjoint)\<rparr>)"

text \<open>The loop of the \<^verbatim>\<open>exp_f32\<close> branch.\<close>

fun accumulate_exp_args ::
  "expr list \<Rightarrow> expr \<Rightarrow> reverse_accumulation_visitor \<Rightarrow> reverse_accumulation_visitor" where
  "accumulate_exp_args [] adjoint s = s"
| "accumulate_exp_args (a # as) adjoint s =
     accumulate_exp_args as adjoint (accumulate a (op_mul adjoint (exp_expr a)) s)"

text \<open>
  The accumulator a call scatters to: \<^verbatim>\<open>func.updates().size() - 1\<close> is an unsigned
  subtraction whose result is converted to the \<^verbatim>\<open>int\<close> of the key, \<open>-1\<close> for a function
  without update.
\<close>

definition scatter_key :: "func_key \<Rightarrow> func \<Rightarrow> func_key" where
  "scatter_key cur func =
     (if func_name func \<noteq> fst cur
      then (func_name func, int (length (func_updates func)) - 1)
      else (func_name func, snd cur - 1))"

text \<open>
  \<^verbatim>\<open>adjoint_funcs[key]\<close> gives a default constructed \<^verbatim>\<open>Func\<close> for a key that is absent.
  \<^verbatim>\<open>func_to_update(args) += adjoint\<close> adds the update
  \<^verbatim>\<open>func_to_update(args) = func_to_update(args) + adjoint\<close>.
\<close>

definition default_func :: func where
  "default_func = \<lparr>func_name = [], func_args = [], func_value = float_const 0, func_updates = []\<rparr>"

definition func_at :: "(func_key \<rightharpoonup> func) \<Rightarrow> func_key \<Rightarrow> func" where
  "func_at m key = (case m key of None \<Rightarrow> default_func | Some f \<Rightarrow> f)"

definition call_func :: "func \<Rightarrow> expr list \<Rightarrow> expr" where
  "call_func f args = Call fresh (func_name f) Halide (Some (func_name f)) args"

definition func_plus_eq :: "func \<Rightarrow> string list \<Rightarrow> expr \<Rightarrow> func" where
  "func_plus_eq f args adjoint =
     f\<lparr>func_updates := func_updates f @ [op_add (call_func f (map var_expr args)) adjoint]\<rparr>"

text \<open>
  The canonicalization loop of \<^verbatim>\<open>visit(Call)\<close>: \<open>op_args\<close> are the arguments of the call,
  \<open>args\<close> the domain variables of the called function.
\<close>

function canonicalize ::
  "host \<Rightarrow> expr list \<Rightarrow> string list \<Rightarrow> rdom \<Rightarrow> nat \<Rightarrow> expr \<Rightarrow> stop + expr" where
  "canonicalize h op_args args cur_bounds i adjoint =
     (if i < length op_args then
        (if i < length args then
           (if \<not> find_var (op_args ! i) (args ! i) then
              (case (if find_var adjoint (args ! i)
                     then (case rdom_as_expr h cur_bounds of
                             Inl e \<Rightarrow> Inl e
                           | Inr r \<Rightarrow> Inr (substitute (args ! i) r adjoint))
                     else Inr adjoint) of
                 Inl e \<Rightarrow> Inl e
               | Inr adjoint1 \<Rightarrow>
                   canonicalize h op_args args cur_bounds (i + 1)
                     (case op_args ! i of
                        Variable p name (Some d) \<Rightarrow> substitute name (var_expr (args ! i)) adjoint1
                      | _ \<Rightarrow> adjoint1))
            else
              (let result = solve_expression h (op_eq (var_expr ''tmp'') (op_args ! i)) (args ! i) in
               if \<not> fully_solved result then Inl (Fatal CantSolveInverse)
               else
                 (case sr_result result of
                    Bin p EQ a result_rhs \<Rightarrow>
                      (let inv = substitute ''tmp'' (var_expr (args ! i)) result_rhs
                       in canonicalize h op_args args cur_bounds (i + 1)
                            (substitute (args ! i) inv adjoint))
                  | _ \<Rightarrow> Inl (Fatal AssertionFailed))))
         else Inl Undefined)
      else Inr adjoint)"
  by pat_completeness auto
termination
  by (relation "measure (\<lambda>(h, op_args, args, cur_bounds, i, adjoint). length op_args - i)") auto

declare canonicalize.simps [simp del]

text \<open>The second branch of \<^verbatim>\<open>visit(Call)\<close>: the call of a Halide function.\<close>

definition scatter_call ::
  "host \<Rightarrow> func \<Rightarrow> expr list \<Rightarrow> expr \<Rightarrow> reverse_accumulation_visitor
     \<Rightarrow> stop + reverse_accumulation_visitor" where
  "scatter_call h func op_args adjoint s =
     (let args = func_args func;
          key = scatter_key (ra_current_func_key s) func;
          func_to_update = func_at (adjoint_funcs s) key
      in case canonicalize h op_args args (ra_current_bounds s) 0 adjoint of
           Inl e \<Rightarrow> Inl e
         | Inr adjoint' \<Rightarrow>
             Inr (s\<lparr>adjoint_funcs := (adjoint_funcs s)(key \<mapsto> func_plus_eq func_to_update args adjoint')\<rparr>))"

text \<open>
  The visit methods. Every overridden method starts with the assertion that the node has an
  accumulated adjoint. A node type the visitor does not override keeps the rule of
  \<^verbatim>\<open>IRVisitor\<close>, which visits the operands.
\<close>

fun ra_visit ::
  "host \<Rightarrow> fenv \<Rightarrow> expr \<Rightarrow> reverse_accumulation_visitor \<Rightarrow> stop + reverse_accumulation_visitor" where
  "ra_visit h env (Cast p t v) s =
     (case accumulated_adjoints s p of
        None \<Rightarrow> Inl (Fatal AssertionFailed)
      | Some adjoint \<Rightarrow> Inr (accumulate v adjoint s))"
| "ra_visit h env (Variable p name d) s =
     (case accumulated_adjoints s p of
        None \<Rightarrow> Inl (Fatal AssertionFailed)
      | Some adjoint \<Rightarrow>
          (case let_var_mapping s name of
             None \<Rightarrow> Inr s
           | Some v \<Rightarrow> Inr (accumulate v (LetIn fresh name v adjoint) s)))"
| "ra_visit h env (Bin p Add a b) s =
     (case accumulated_adjoints s p of
        None \<Rightarrow> Inl (Fatal AssertionFailed)
      | Some adjoint \<Rightarrow> Inr (accumulate b adjoint (accumulate a adjoint s)))"
| "ra_visit h env (Bin p Sub a b) s =
     (case accumulated_adjoints s p of
        None \<Rightarrow> Inl (Fatal AssertionFailed)
      | Some adjoint \<Rightarrow> Inr (accumulate b (op_neg adjoint) (accumulate a adjoint s)))"
| "ra_visit h env (Bin p Mul a b) s =
     (case accumulated_adjoints s p of
        None \<Rightarrow> Inl (Fatal AssertionFailed)
      | Some adjoint \<Rightarrow>
          Inr (accumulate b (op_mul adjoint a) (accumulate a (op_mul adjoint b) s)))"
| "ra_visit h env (Bin p Div a b) s =
     (case accumulated_adjoints s p of
        None \<Rightarrow> Inl (Fatal AssertionFailed)
      | Some adjoint \<Rightarrow>
          Inr (accumulate b (op_div (op_mul (op_neg adjoint) a) (op_mul b b))
                 (accumulate a (op_div adjoint b) s)))"
| "ra_visit h env (Bin p MinOp a b) s =
     (case accumulated_adjoints s p of
        None \<Rightarrow> Inl (Fatal AssertionFailed)
      | Some adjoint \<Rightarrow>
          Inr (accumulate b (select_expr (op_le b a) adjoint (float_const 0))
                 (accumulate a (select_expr (op_le a b) adjoint (float_const 0)) s)))"
| "ra_visit h env (Bin p MaxOp a b) s =
     (case accumulated_adjoints s p of
        None \<Rightarrow> Inl (Fatal AssertionFailed)
      | Some adjoint \<Rightarrow>
          Inr (accumulate b (select_expr (op_ge b a) adjoint (float_const 0))
                 (accumulate a (select_expr (op_ge a b) adjoint (float_const 0)) s)))"
| "ra_visit h env (Call p name ct fn op_args) s =
     (case accumulated_adjoints s p of
        None \<Rightarrow> Inl (Fatal AssertionFailed)
      | Some adjoint \<Rightarrow>
          (let s1 = (if name = ''exp_f32'' then accumulate_exp_args op_args adjoint s else s) in
           case fn of
             None \<Rightarrow> Inr s1
           | Some f \<Rightarrow>
               (case lookup_func env fn of
                  None \<Rightarrow> Inl (Fatal UndefinedFunction)
                | Some func \<Rightarrow> scatter_call h func op_args adjoint s1)))"
| "ra_visit h env (LetIn p name v b) s =
     (case accumulated_adjoints s p of
        None \<Rightarrow> Inl (Fatal AssertionFailed)
      | Some adjoint \<Rightarrow>
          Inr ((accumulate b adjoint s)\<lparr>let_var_mapping := (let_var_mapping (accumulate b adjoint s))(name \<mapsto> v)\<rparr>))"
| "ra_visit h env (Bin p f a b) s =
     (case ra_visit h env a s of Inl e \<Rightarrow> Inl e | Inr s1 \<Rightarrow> ra_visit h env b s1)"
| "ra_visit h env (NotOp p a) s = ra_visit h env a s"
| "ra_visit h env (Select p c t f) s =
     (case ra_visit h env c s of
        Inl e \<Rightarrow> Inl e
      | Inr s1 \<Rightarrow> (case ra_visit h env t s1 of Inl e \<Rightarrow> Inl e | Inr s2 \<Rightarrow> ra_visit h env f s2))"
| "ra_visit h env (IntImm p v) s = Inr s"
| "ra_visit h env (FloatImm p v) s = Inr s"

text \<open>A loop that stops at the first fatal error.\<close>

fun fold_e :: "('a \<Rightarrow> 's \<Rightarrow> stop + 's) \<Rightarrow> 'a list \<Rightarrow> 's \<Rightarrow> stop + 's" where
  "fold_e f [] s = Inr s"
| "fold_e f (x # xs) s = (case f x s of Inl e \<Rightarrow> Inl e | Inr s' \<Rightarrow> fold_e f xs s')"

section \<open>The driver of the reverse pass\<close>

text \<open>\<^verbatim>\<open>std::to_string\<close> of a stage number.\<close>

function string_of_nat :: "nat \<Rightarrow> string" where
  "string_of_nat n =
     (if n < 10 then [char_of (48 + n)]
      else string_of_nat (n div 10) @ [char_of (48 + n mod 10)])"
  by pat_completeness auto
termination
  by (relation "measure id") auto

declare string_of_nat.simps [simp del]

definition to_string :: "int \<Rightarrow> string" where
  "to_string i = (if i < 0 then CHR ''-'' # string_of_nat (nat (- i)) else string_of_nat (nat i))"

text \<open>One zero accumulator per function and stage, from the initialization upwards.\<close>

definition adjoint_stub :: "func \<Rightarrow> int \<Rightarrow> func" where
  "adjoint_stub f update_id =
     \<lparr>func_name = func_name f @ ''_'' @ to_string (update_id + 1) @ ''_d__'',
      func_args = func_args f, func_value = float_const 0, func_updates = []\<rparr>"

definition create_stubs ::
  "func list \<Rightarrow> reverse_accumulation_visitor \<Rightarrow> reverse_accumulation_visitor" where
  "create_stubs funcs s =
     fold (\<lambda>f s1.
             fold (\<lambda>update_id s2.
                     s2\<lparr>adjoint_funcs := (adjoint_funcs s2)((func_name f, update_id) \<mapsto> adjoint_stub f update_id)\<rparr>)
               [-1..num_update_definitions f - 1] s1)
       funcs s"

text \<open>
  The body of the loop over the stages of one function: sort the stage, take its bounds as
  the context, wrap the accumulator with the boundary condition, seed the root of the stage
  with the call of the accumulator and walk the list backwards.
\<close>

definition propagate_stage ::
  "host \<Rightarrow> fenv \<Rightarrow> func \<Rightarrow> int \<Rightarrow> reverse_accumulation_visitor
     \<Rightarrow> stop + reverse_accumulation_visitor" where
  "propagate_stage h env f update_id s =
     (let expr_list = get_expr_list (stage_expr f update_id);
          func_key = (func_name f, update_id)
      in case ra_func_bounds s func_key of
           None \<Rightarrow> Inl (Fatal AssertionFailed)
         | Some bounds \<Rightarrow>
             (let wrapped = constant_exterior h (func_at (adjoint_funcs s) func_key) (float_const 0)
                              (rdom_to_vector bounds);
                  args = map var_expr (func_args f);
                  s1 = s\<lparr>ra_current_func_key := func_key,
                         ra_current_bounds := bounds,
                         adjoint_funcs := (adjoint_funcs s)(func_key \<mapsto> wrapped),
                         accumulated_adjoints :=
                           (accumulated_adjoints s)(addr_of (last expr_list) \<mapsto> call_func wrapped args)\<rparr>
              in fold_e (ra_visit h env) (rev expr_list) s1))"

definition propagate_func ::
  "host \<Rightarrow> fenv \<Rightarrow> func \<Rightarrow> reverse_accumulation_visitor \<Rightarrow> stop + reverse_accumulation_visitor" where
  "propagate_func h env f s =
     fold_e (propagate_stage h env f) (rev [-1..num_update_definitions f - 1]) s"

definition ra_init :: reverse_accumulation_visitor where
  "ra_init = \<lparr>accumulated_adjoints = Map.empty, adjoint_funcs = Map.empty,
              let_var_mapping = Map.empty, ra_func_bounds = Map.empty,
              ra_current_func_key = ([], 0), ra_current_bounds = []\<rparr>"

text \<open>
  \<^verbatim>\<open>ReverseAccumulationVisitor::propagate_adjoints\<close>, in two parts: up to the walk of the
  output expression, and the loop over the functions. The fuel is that of the bounds
  inference.
\<close>

definition propagate_output ::
  "host \<Rightarrow> fenv \<Rightarrow> nat \<Rightarrow> expr \<Rightarrow> func list \<Rightarrow> reverse_accumulation_visitor
     \<Rightarrow> reverse_accumulation_visitor result" where
  "propagate_output h env fuel output funcs s =
     bind_r (bi_inference h env fuel output) (\<lambda>bi.
       (let s1 = create_stubs funcs (s\<lparr>ra_func_bounds := get_func_bounds h bi\<rparr>);
            expr_list = get_expr_list output;
            s2 = accumulate output (float_const 1) s1
        in lift_r (fold_e (ra_visit h env) (rev expr_list) s2)))"

definition ra_propagate_adjoints ::
  "host \<Rightarrow> fenv \<Rightarrow> nat \<Rightarrow> expr \<Rightarrow> func list \<Rightarrow> reverse_accumulation_visitor
     \<Rightarrow> reverse_accumulation_visitor result" where
  "ra_propagate_adjoints h env fuel output funcs s =
     (if funcs = [] then ok s
      else
        bind_r (propagate_output h env fuel output funcs s) (\<lambda>s3.
          lift_r (fold_e (propagate_func h env) funcs s3)))"


section \<open>Order of the functions\<close>

text \<open>
  \<^verbatim>\<open>FunctionSorter\<close> is a graph visitor too. A call of a Halide function that is not yet in
  \<^verbatim>\<open>traversed_functions\<close> sorts that function: this is the recursion through the function
  graph, counted by the fuel.
\<close>

record function_sorter =
  fs_visited :: "addr set"
  fs_functions :: "func list"
  traversed_functions :: "string set"

function (sequential)
  fs_include :: "fenv \<Rightarrow> nat \<Rightarrow> expr \<Rightarrow> function_sorter \<Rightarrow> function_sorter result"
  and fs_accept :: "fenv \<Rightarrow> nat \<Rightarrow> expr \<Rightarrow> function_sorter \<Rightarrow> function_sorter result"
  and fs_include_args :: "fenv \<Rightarrow> nat \<Rightarrow> expr list \<Rightarrow> function_sorter \<Rightarrow> function_sorter result"
  and fs_stages :: "fenv \<Rightarrow> nat \<Rightarrow> func \<Rightarrow> int \<Rightarrow> function_sorter \<Rightarrow> function_sorter result"
  and fs_sort_func :: "fenv \<Rightarrow> nat \<Rightarrow> func \<Rightarrow> function_sorter \<Rightarrow> function_sorter result"
where
  "fs_include env fuel e s =
     (if addr_of e \<in> fs_visited s then ok s
      else fs_accept env fuel e (s\<lparr>fs_visited := insert (addr_of e) (fs_visited s)\<rparr>))"
| "fs_accept env fuel (Call p name ct fn args) s =
     (if ct = Halide then
        (case lookup_func env fn of
           None \<Rightarrow> fail UndefinedFunction
         | Some func \<Rightarrow>
             if func_name func \<in> traversed_functions s then ok s
             else (case fuel of
                     0 \<Rightarrow> None
                   | Suc fuel' \<Rightarrow> fs_sort_func env fuel' func s))
      else fs_include_args env fuel args s)"
| "fs_accept env fuel (Cast p t v) s = fs_include env fuel v s"
| "fs_accept env fuel (Bin p f a b) s =
     bind_r (fs_include env fuel a s) (\<lambda>s1. fs_include env fuel b s1)"
| "fs_accept env fuel (NotOp p a) s = fs_include env fuel a s"
| "fs_accept env fuel (Select p c t f) s =
     bind_r (fs_include env fuel c s) (\<lambda>s1.
     bind_r (fs_include env fuel t s1) (\<lambda>s2. fs_include env fuel f s2))"
| "fs_accept env fuel (LetIn p name v b) s =
     bind_r (fs_include env fuel v s) (\<lambda>s1. fs_include env fuel b s1)"
| "fs_accept env fuel e s = ok s"
| "fs_include_args env fuel [] s = ok s"
| "fs_include_args env fuel (a # as) s =
     bind_r (fs_include env fuel a s) (\<lambda>s1. fs_include_args env fuel as s1)"
| "fs_stages env fuel f update_id s =
     (if update_id \<ge> -1 then
        bind_r (fs_accept env fuel (stage_expr f update_id) s)
          (\<lambda>s1. fs_stages env fuel f (update_id - 1) s1)
      else ok s)"
| "fs_sort_func env fuel f s =
     fs_stages env fuel f (num_update_definitions f - 1)
       (s\<lparr>traversed_functions := insert (func_name f) (traversed_functions s),
          fs_functions := fs_functions s @ [f]\<rparr>)"
  by pat_completeness auto
termination
  by (relation
       "inv_image (less_than <*lex*> less_than <*lex*> less_than <*lex*> less_than)
          (\<lambda>x. case x of
             Inl (Inl (env, fuel, e, s)) \<Rightarrow> (fuel, 0::nat, size e, 1::nat)
           | Inl (Inr (env, fuel, e, s)) \<Rightarrow> (fuel, 0, size e, 0)
           | Inr (Inl (env, fuel, es, s)) \<Rightarrow> (fuel, 0, size_list size es, 0)
           | Inr (Inr (Inl (env, fuel, f, update_id, s))) \<Rightarrow> (fuel, 1, nat (update_id + 2), 0)
           | Inr (Inr (Inr (env, fuel, f, s))) \<Rightarrow> (fuel, 2, 0, 0))")
     auto

declare fs_include.simps [simp del]
declare fs_stages.simps [simp del]

definition fs_init :: function_sorter where
  "fs_init = \<lparr>fs_visited = {}, fs_functions = [], traversed_functions = {}\<rparr>"

text \<open>\<^verbatim>\<open>sort(Expr)\<close> clears the visited set of the sorter and accepts the expression.\<close>

definition fs_sort :: "fenv \<Rightarrow> nat \<Rightarrow> expr \<Rightarrow> function_sorter \<Rightarrow> function_sorter result" where
  "fs_sort env fuel e s = fs_accept env fuel e (s\<lparr>fs_visited := {}\<rparr>)"


section \<open>Value of an expression\<close>

text \<open>
  The value of an expression in exact arithmetic, given the values of the variables and of
  the called functions; a condition is true when it is not zero. It states what a
  contribution to an adjoint amounts to.
\<close>

fun bin_sem :: "binop \<Rightarrow> real \<Rightarrow> real \<Rightarrow> real" where
  "bin_sem Add x y = x + y"
| "bin_sem Sub x y = x - y"
| "bin_sem Mul x y = x * y"
| "bin_sem Div x y = x / y"
| "bin_sem Mod x y = x - y * of_int \<lfloor>x / y\<rfloor>"
| "bin_sem MinOp x y = min x y"
| "bin_sem MaxOp x y = max x y"
| "bin_sem EQ x y = of_bool (x = y)"
| "bin_sem NE x y = of_bool (x \<noteq> y)"
| "bin_sem LT x y = of_bool (x < y)"
| "bin_sem LE x y = of_bool (x \<le> y)"
| "bin_sem GT x y = of_bool (x > y)"
| "bin_sem GE x y = of_bool (x \<ge> y)"
| "bin_sem AndOp x y = of_bool (x \<noteq> 0 \<and> y \<noteq> 0)"
| "bin_sem OrOp x y = of_bool (x \<noteq> 0 \<or> y \<noteq> 0)"

definition cast_sem :: "htype \<Rightarrow> real \<Rightarrow> real" where
  "cast_sem t x =
     (case t of
        Float_t bits \<Rightarrow> x
      | _ \<Rightarrow> (if x \<ge> 0 then of_int \<lfloor>x\<rfloor> else of_int \<lceil>x\<rceil>))"

fun eval :: "(string \<Rightarrow> real list \<Rightarrow> real) \<Rightarrow> (string \<Rightarrow> real) \<Rightarrow> expr \<Rightarrow> real"
  and eval_list :: "(string \<Rightarrow> real list \<Rightarrow> real) \<Rightarrow> (string \<Rightarrow> real) \<Rightarrow> expr list \<Rightarrow> real list"
where
  "eval C V (IntImm p v) = of_int v"
| "eval C V (FloatImm p v) = v"
| "eval C V (Variable p name d) = V name"
| "eval C V (Cast p t v) = cast_sem t (eval C V v)"
| "eval C V (Bin p f a b) = bin_sem f (eval C V a) (eval C V b)"
| "eval C V (NotOp p a) = of_bool (eval C V a = 0)"
| "eval C V (Select p c t f) = (if eval C V c \<noteq> 0 then eval C V t else eval C V f)"
| "eval C V (Call p name ct fn args) = C name (eval_list C V args)"
| "eval C V (LetIn p name v b) = eval C (V(name := eval C V v)) b"
| "eval_list C V [] = []"
| "eval_list C V (a # as) = eval C V a # eval_list C V as"

section \<open>An example host\<close>

text \<open>
  The host of the worked examples: a simplifier that changes nothing, a solver that never
  solves, a boundary condition that returns the function, an \<^verbatim>\<open>RDom\<close> that converts to its
  variable when it has one dimension, and an indexing operator that reports an error for a
  dimension the domain does not have.
\<close>

definition example_host :: host where
  "example_host =
     \<lparr>simplify = (\<lambda>e. e),
      solve_expression = (\<lambda>e name. \<lparr>sr_result = e, fully_solved = False\<rparr>),
      constant_exterior = (\<lambda>f fill bounds. f),
      rdom_as_expr = (\<lambda>r. case r of [rv] \<Rightarrow> Inr (Variable fresh (rv_var rv) (Some r))
                                   | _ \<Rightarrow> Inl (Fatal HostError)),
      rdom_past_end = (\<lambda>b i. Inl (Fatal HostError))\<rparr>"

section \<open>Properties of the bounds of a call argument\<close>

lemma var_bounds_loop_find:
  "var_bounds_loop h args cb name k =
     (case find (\<lambda>i. args ! i = name) [k..<length args] of
        None \<Rightarrow> Inl (Fatal CantInferBounds)
      | Some i \<Rightarrow>
          if i < length cb then Inr (rv_min (cb ! i), rv_extent (cb ! i)) else rdom_past_end h cb i)"
proof (induction h args cb name k rule: var_bounds_loop.induct)
  case (1 h args cb name i)
  show ?case
  proof (cases "i < length args")
    case True
    then have upt: "[i..<length args] = i # [i + 1..<length args]"
      by (simp add: upt_conv_Cons)
    show ?thesis
    proof (cases "args ! i = name")
      case True
      with \<open>i < length args\<close> upt show ?thesis
        by (subst var_bounds_loop.simps) simp
    next
      case False
      with \<open>i < length args\<close> upt "1.IH" show ?thesis
        by (subst var_bounds_loop.simps) simp
    qed
  next
    case False
    then show ?thesis
      by (subst var_bounds_loop.simps) simp
  qed
qed


lemma length_RDom_of [simp]: "length (RDom_of ranges) = length ranges"
  by (simp add: RDom_of_def)

lemma RDom_of_Nil [simp]: "RDom_of [] = []"
  by (simp add: RDom_of_def)


text \<open>
  The node types \<^verbatim>\<open>get_min_max_bounds\<close> has a branch for, and the expressions it returns a
  pair for. A reduction variable gives a pair when its domain has a variable at the position
  of the call argument. A plain variable gives a pair when one of the current arguments has
  its name and either the current bounds have an entry at the position of the first such
  argument or the host returns a pair for the missing dimension.
\<close>

definition resolvable :: "host \<Rightarrow> string list \<Rightarrow> rdom \<Rightarrow> string \<Rightarrow> bool" where
  "resolvable h args cb name =
     (case find (\<lambda>i. args ! i = name) [0..<length args] of
        None \<Rightarrow> False
      | Some i \<Rightarrow> i < length cb \<or> (case rdom_past_end h cb i of Inl e \<Rightarrow> False | Inr b \<Rightarrow> True))"

fun supported_node :: "expr \<Rightarrow> bool" where
  "supported_node (Bin p f a b) = (f = Add \<or> f = Sub \<or> f = MinOp \<or> f = MaxOp)"
| "supported_node (IntImm p v) = True"
| "supported_node (Variable p n d) = True"
| "supported_node e = False"

fun returns_pair :: "host \<Rightarrow> string list \<Rightarrow> rdom \<Rightarrow> nat \<Rightarrow> expr \<Rightarrow> bool" where
  "returns_pair h args cb idx (Bin p f a b) =
     ((f = Add \<or> f = Sub \<or> f = MinOp \<or> f = MaxOp)
      \<and> returns_pair h args cb idx a \<and> returns_pair h args cb idx b)"
| "returns_pair h args cb idx (IntImm p v) = True"
| "returns_pair h args cb idx (Variable p n (Some d)) = (idx < length d)"
| "returns_pair h args cb idx (Variable p n None) = resolvable h args cb n"
| "returns_pair h args cb idx e = False"

lemma ex_Inr: "(\<exists>b. x = Inr b) = (case x of Inl e \<Rightarrow> False | Inr b \<Rightarrow> True)"
  by (cases x) auto

lemma get_min_max_bounds_returns_pair:
  "(\<exists>b. get_min_max_bounds h e args cb idx = Inr b) = returns_pair h args cb idx e"
proof (induction h e args cb idx rule: get_min_max_bounds.induct)
  case (4 h p name current_args current_bounds index)
  show ?case
    by (simp only: get_min_max_bounds.simps returns_pair.simps var_bounds_loop_find resolvable_def ex_Inr)
       (simp split: option.splits)
qed (auto split: sum.splits)

lemma get_min_max_bounds_unsupported_node:
  "\<not> supported_node e \<Longrightarrow> get_min_max_bounds h e args cb idx = Inl (Fatal CantInferBounds)"
  by (induction h e args cb idx rule: get_min_max_bounds.induct) auto









text \<open>
  C6. The branch of a reduction variable reads the domain of the variable at the position
  of the call argument, not at the position of the variable. In \<open>f(0, r.x)\<close>, with \<open>r\<close> of
  one dimension, the reference \<open>r.x\<close> is argument \<open>1\<close> and the domain has no variable \<open>1\<close>:
  the read is past the end of the vector, and no pair is returned for a reduction variable
  reference. In \<open>f(r.y, r.x)\<close>, with \<open>r\<close> of two dimensions, the reference \<open>r.y\<close> is argument
  \<open>0\<close> and gets the minimum and the maximum of \<open>r.x\<close>. The branch of a plain variable, next to
  it, finds its variable by name.
\<close>

theorem reduction_variable_read_at_argument_position:
  "get_min_max_bounds h (Variable p ''r$x'' (Some [ReductionVariable ''r$x'' (IntImm 1 0) (IntImm 2 3)]))
       args cb 1
     = Inl Undefined
   \<and> get_min_max_bounds h
         (Variable p ''r$y'' (Some [ReductionVariable ''r$x'' (IntImm 1 0) (IntImm 2 3),
                                    ReductionVariable ''r$y'' (IntImm 3 5) (IntImm 4 7)]))
         args cb 0
     = Inr (IntImm 1 0, op_sub (op_add (IntImm 1 0) (IntImm 2 3)) (int_const 1))"
  by simp

section \<open>Properties of the recorded bounds\<close>

lemma arg_bounds_loop_result:
  "arg_bounds_loop h args ca cb i acc = Inr nb \<Longrightarrow> i \<le> length args \<Longrightarrow>
     length nb = length acc + (length args - i)
     \<and> (\<forall>k<length acc. nb ! k = acc ! k)
     \<and> (\<forall>k. i \<le> k \<and> k < length args \<longrightarrow>
            get_min_max_bounds h (args ! k) ca cb k = Inr (nb ! (length acc + (k - i))))"
proof (induction h args ca cb i acc rule: arg_bounds_loop.induct)
  case (1 h args ca cb i acc)
  show ?case
  proof (cases "i < length args")
    case False
    with "1.prems" show ?thesis
      by (subst (asm) arg_bounds_loop.simps) auto
  next
    case True
    from "1.prems"(1) True obtain mm where
      mm: "get_min_max_bounds h (args ! i) ca cb i = Inr mm"
      and rest: "arg_bounds_loop h args ca cb (i + 1) (acc @ [mm]) = Inr nb"
      by (subst (asm) arg_bounds_loop.simps) (auto split: sum.splits)
    from "1.IH"[OF True mm rest] True have
      len: "length nb = length (acc @ [mm]) + (length args - (i + 1))"
      and pre: "\<forall>k<length (acc @ [mm]). nb ! k = (acc @ [mm]) ! k"
      and post: "\<forall>k. i + 1 \<le> k \<and> k < length args \<longrightarrow>
            get_min_max_bounds h (args ! k) ca cb k = Inr (nb ! (length (acc @ [mm]) + (k - (i + 1))))"
      by auto
    have "length nb = length acc + (length args - i)"
      using len True by simp
    moreover have "\<forall>k<length acc. nb ! k = acc ! k"
      using pre by (auto simp: nth_append)
    moreover have "get_min_max_bounds h (args ! k) ca cb k = Inr (nb ! (length acc + (k - i)))"
      if "i \<le> k \<and> k < length args" for k
    proof (cases "k = i")
      case True
      have "nb ! length acc = mm"
        using pre by (auto simp: nth_append)
      with True mm show ?thesis by simp
    next
      case False
      with that have "i + 1 \<le> k \<and> k < length args" by simp
      with post have g: "get_min_max_bounds h (args ! k) ca cb k
                        = Inr (nb ! (length (acc @ [mm]) + (k - (i + 1))))"
        by blast
      have "length (acc @ [mm]) = length acc + 1"
        by simp
      moreover have "k - i = 1 + (k - (i + 1))"
        using that False by arith
      ultimately have "length (acc @ [mm]) + (k - (i + 1)) = length acc + (k - i)"
        by arith
      with g show ?thesis by (simp only:)
    qed
    ultimately show ?thesis by blast
  qed
qed

lemma merge_loop_result:
  "length (merge_loop h prev i ab) = length ab
   \<and> (\<forall>k<length ab. merge_loop h prev i ab ! k =
         (if i \<le> k then merge_bounds h (prev ! k) (ab ! k) else ab ! k))"
proof (induction h prev i ab rule: merge_loop.induct)
  case (1 h prev i ab)
  show ?case
  proof (cases "i < length ab")
    case False
    then show ?thesis
      by (subst merge_loop.simps, subst (2) merge_loop.simps) simp
  next
    case True
    let ?ab = "ab[i := merge_bounds h (prev ! i) (ab ! i)]"
    have step: "merge_loop h prev i ab = merge_loop h prev (i + 1) ?ab"
      using True by (subst merge_loop.simps) simp
    from "1.IH"[OF True] have
      len: "length (merge_loop h prev (i + 1) ?ab) = length ?ab"
      and el: "\<forall>k<length ?ab. merge_loop h prev (i + 1) ?ab ! k =
                 (if i + 1 \<le> k then merge_bounds h (prev ! k) (?ab ! k) else ?ab ! k)"
      by auto
    have "merge_loop h prev i ab ! k =
            (if i \<le> k then merge_bounds h (prev ! k) (ab ! k) else ab ! k)"
      if "k < length ab" for k
    proof -
      from el that have
        "merge_loop h prev (i + 1) ?ab ! k =
           (if i + 1 \<le> k then merge_bounds h (prev ! k) (?ab ! k) else ?ab ! k)"
        by simp
      then show ?thesis
        using that True by (cases "k = i") (auto simp: step)
    qed
    with len show ?thesis
      by (simp add: step)
  qed
qed

text \<open>
  C5. When a call site records bounds under a key that already has bounds (a second or later
  call site of that function stage, or a call of the function to itself from its next stage),
  the stored pair of every argument position becomes the merge of the pair stored before and
  the pair of this call site: the (simplified) minimum of the two minimums and the
  (simplified) maximum of the two maximums.
\<close>

theorem record_call_bounds_merges:
  assumes "func_bounds s (call_key (current_func_key s) func) = Some prev_bounds"
    and "arg_bounds_loop h args (current_args s) (current_bounds s) 0 [] = Inr new_bounds"
    and "length new_bounds = length prev_bounds"
  shows "\<exists>s' stored.
           record_call_bounds h func args s = Inr s'
           \<and> func_bounds s' (call_key (current_func_key s) func) = Some stored
           \<and> length stored = length args
           \<and> (\<forall>i<length args.
                 get_min_max_bounds h (args ! i) (current_args s) (current_bounds s) i = Inr (new_bounds ! i)
                 \<and> stored ! i =
                     (simplify h (op_min (fst (prev_bounds ! i)) (fst (new_bounds ! i))),
                      simplify h (op_max (snd (prev_bounds ! i)) (snd (new_bounds ! i)))))"
proof -
  let ?key = "call_key (current_func_key s) func"
  let ?stored = "merge_loop h prev_bounds 0 new_bounds"
  let ?s' = "s\<lparr>func_bounds := (func_bounds s)(?key \<mapsto> ?stored)\<rparr>"
  from arg_bounds_loop_result[OF assms(2)] have
    len: "length new_bounds = length args"
    and nb: "\<forall>k<length args.
               get_min_max_bounds h (args ! k) (current_args s) (current_bounds s) k = Inr (new_bounds ! k)"
    by auto
  have rec: "record_call_bounds h func args s = Inr ?s'"
    using assms by (simp add: record_call_bounds_def Let_def)
  have st: "func_bounds ?s' ?key = Some ?stored"
    by simp
  have l2: "length ?stored = length args"
    using merge_loop_result[of h prev_bounds 0 new_bounds] len by simp
  have el: "?stored ! i =
              (simplify h (op_min (fst (prev_bounds ! i)) (fst (new_bounds ! i))),
               simplify h (op_max (snd (prev_bounds ! i)) (snd (new_bounds ! i))))"
    if "i < length args" for i
    using merge_loop_result[of h prev_bounds 0 new_bounds] that len
    by (simp add: merge_bounds_def)
  show ?thesis
    using rec st l2 nb el by blast
qed

theorem record_call_bounds_merges_witness:
  "func_bounds
      \<lparr>recursion_depth = 1, func_bounds = [(''input'', -1) \<mapsto> [(IntImm 3 0, IntImm 4 9)]],
       current_func_key = (''blur'', -1), current_args = [''x''],
       current_bounds = RDom_of [(IntImm 1 0, IntImm 2 9)]\<rparr>
      (call_key (''blur'', -1)
         \<lparr>func_name = ''input'', func_args = [''x''], func_value = FloatImm 8 0, func_updates = []\<rparr>)
     = Some [(IntImm 3 0, IntImm 4 9)]
   \<and> arg_bounds_loop example_host [Bin 5 Add (Variable 6 ''x'' None) (IntImm 7 1)] [''x'']
         (RDom_of [(IntImm 1 0, IntImm 2 9)]) 0 []
       = Inr [(op_add (IntImm 1 0) (IntImm 7 1), op_add (IntImm 2 9) (IntImm 7 1))]
   \<and> (\<exists>s' stored.
         record_call_bounds example_host
           \<lparr>func_name = ''input'', func_args = [''x''], func_value = FloatImm 8 0, func_updates = []\<rparr>
           [Bin 5 Add (Variable 6 ''x'' None) (IntImm 7 1)]
           \<lparr>recursion_depth = 1, func_bounds = [(''input'', -1) \<mapsto> [(IntImm 3 0, IntImm 4 9)]],
            current_func_key = (''blur'', -1), current_args = [''x''],
            current_bounds = RDom_of [(IntImm 1 0, IntImm 2 9)]\<rparr> = Inr s'
         \<and> func_bounds s' (''input'', -1) = Some stored
         \<and> stored ! 0 = (op_min (IntImm 3 0) (op_add (IntImm 1 0) (IntImm 7 1)),
                          op_max (IntImm 4 9) (op_add (IntImm 2 9) (IntImm 7 1))))"
proof -
  let ?f = "\<lparr>func_name = ''input'', func_args = [''x''], func_value = FloatImm 8 0, func_updates = []\<rparr>"
  let ?s = "\<lparr>recursion_depth = 1, func_bounds = [(''input'', -1) \<mapsto> [(IntImm 3 0, IntImm 4 9)]],
             current_func_key = (''blur'', -1), current_args = [''x''],
             current_bounds = RDom_of [(IntImm 1 0, IntImm 2 9)]\<rparr>"
  let ?args = "[Bin 5 Add (Variable 6 ''x'' None) (IntImm 7 1)]"
  let ?new = "[(op_add (IntImm 1 0) (IntImm 7 1), op_add (IntImm 2 9) (IntImm 7 1))]"
  have key: "call_key (''blur'', -1) ?f = (''input'', -1)"
    by (simp add: call_key_def num_update_definitions_def)
  have h1: "func_bounds ?s (call_key (current_func_key ?s) ?f) = Some [(IntImm 3 0, IntImm 4 9)]"
    by (simp add: key)
  have h2: "arg_bounds_loop example_host ?args (current_args ?s) (current_bounds ?s) 0 [] = Inr ?new"
    by (simp add: arg_bounds_loop.simps var_bounds_loop.simps RDom_of_def)
  have h3: "length ?new = length [(IntImm 3 0, IntImm 4 9)]"
    by simp
  from record_call_bounds_merges[OF h1 h2 h3] obtain s' stored where
    "record_call_bounds example_host ?f ?args ?s = Inr s'"
    "func_bounds s' (''input'', -1) = Some stored"
    "stored ! 0 = (op_min (IntImm 3 0) (op_add (IntImm 1 0) (IntImm 7 1)),
                   op_max (IntImm 4 9) (op_add (IntImm 2 9) (IntImm 7 1)))"
    by (auto simp: key example_host_def)
  with h1 h2 show ?thesis
    by (simp add: key)
qed

section \<open>Properties of the accumulation\<close>

lemma accumulate_adjoints:
  "accumulated_adjoints (accumulate e a s) =
     (accumulated_adjoints s)
       (addr_of e \<mapsto> (case accumulated_adjoints s (addr_of e) of None \<Rightarrow> a | Some prev \<Rightarrow> op_add prev a))"
  by (simp add: accumulate_def Let_def split: option.splits)

lemma accumulate_other_fields:
  "adjoint_funcs (accumulate e a s) = adjoint_funcs s"
  "let_var_mapping (accumulate e a s) = let_var_mapping s"
  "ra_func_bounds (accumulate e a s) = ra_func_bounds s"
  "ra_current_func_key (accumulate e a s) = ra_current_func_key s"
  "ra_current_bounds (accumulate e a s) = ra_current_bounds s"
  by (simp_all add: accumulate_def Let_def split: option.splits)

text \<open>
  C4. A binary node with the accumulated adjoint \<open>adjoint\<close> passes, by \<^verbatim>\<open>accumulate\<close>, to \<open>a\<close>
  and then to \<open>b\<close>: for a product \<open>adjoint * b\<close> and \<open>adjoint * a\<close>; for a quotient
  \<open>adjoint / b\<close> and \<open>-adjoint * a / (b * b)\<close>; for a minimum the adjoint under the
  conditions \<open>a \<le> b\<close> and \<open>b \<le> a\<close>, for a maximum under \<open>a \<ge> b\<close> and \<open>b \<ge> a\<close>, zero
  otherwise. When \<open>a\<close> and \<open>b\<close> have the same value both operands of a minimum or a
  maximum get the whole adjoint.
\<close>

theorem binary_rules:
  assumes "accumulated_adjoints s p = Some adjoint"
  shows "(ra_visit h env (Bin p Mul a b) s
           = Inr (accumulate b (op_mul adjoint a) (accumulate a (op_mul adjoint b) s))
         \<and> eval C V (op_mul adjoint b) = eval C V adjoint * eval C V b
         \<and> eval C V (op_mul adjoint a) = eval C V adjoint * eval C V a)
       \<and> (ra_visit h env (Bin p Div a b) s
           = Inr (accumulate b (op_div (op_mul (op_neg adjoint) a) (op_mul b b))
                    (accumulate a (op_div adjoint b) s))
         \<and> eval C V (op_div adjoint b) = eval C V adjoint / eval C V b
         \<and> eval C V (op_div (op_mul (op_neg adjoint) a) (op_mul b b))
             = - (eval C V adjoint) * eval C V a / (eval C V b)\<^sup>2)
       \<and> (ra_visit h env (Bin p MinOp a b) s
           = Inr (accumulate b (select_expr (op_le b a) adjoint (float_const 0))
                    (accumulate a (select_expr (op_le a b) adjoint (float_const 0)) s))
         \<and> eval C V (select_expr (op_le a b) adjoint (float_const 0))
             = (if eval C V a \<le> eval C V b then eval C V adjoint else 0)
         \<and> eval C V (select_expr (op_le b a) adjoint (float_const 0))
             = (if eval C V b \<le> eval C V a then eval C V adjoint else 0)
         \<and> (eval C V a = eval C V b \<longrightarrow>
               eval C V (select_expr (op_le a b) adjoint (float_const 0)) = eval C V adjoint
               \<and> eval C V (select_expr (op_le b a) adjoint (float_const 0)) = eval C V adjoint))
       \<and> (ra_visit h env (Bin p MaxOp a b) s
           = Inr (accumulate b (select_expr (op_ge b a) adjoint (float_const 0))
                    (accumulate a (select_expr (op_ge a b) adjoint (float_const 0)) s))
         \<and> eval C V (select_expr (op_ge a b) adjoint (float_const 0))
             = (if eval C V a \<ge> eval C V b then eval C V adjoint else 0)
         \<and> eval C V (select_expr (op_ge b a) adjoint (float_const 0))
             = (if eval C V b \<ge> eval C V a then eval C V adjoint else 0)
         \<and> (eval C V a = eval C V b \<longrightarrow>
               eval C V (select_expr (op_ge a b) adjoint (float_const 0)) = eval C V adjoint
               \<and> eval C V (select_expr (op_ge b a) adjoint (float_const 0)) = eval C V adjoint))"
  using assms
  by (simp add: op_mul_def op_div_def op_neg_def op_le_def op_ge_def select_expr_def
        float_const_def power2_eq_square)

text \<open>An instance: the minimum of two variables of equal value, both without adjoint yet.\<close>

theorem binary_rules_witness:
  "accumulated_adjoints (ra_init\<lparr>accumulated_adjoints := [1 \<mapsto> FloatImm 9 1]\<rparr>) 1 = Some (FloatImm 9 1)
   \<and> ra_visit example_host [] (Bin 1 MinOp (Variable 2 ''a'' None) (Variable 3 ''b'' None))
        (ra_init\<lparr>accumulated_adjoints := [1 \<mapsto> FloatImm 9 1]\<rparr>)
      = Inr (ra_init\<lparr>accumulated_adjoints :=
               [1 \<mapsto> FloatImm 9 1,
                2 \<mapsto> select_expr (op_le (Variable 2 ''a'' None) (Variable 3 ''b'' None)) (FloatImm 9 1) (float_const 0),
                3 \<mapsto> select_expr (op_le (Variable 3 ''b'' None) (Variable 2 ''a'' None)) (FloatImm 9 1) (float_const 0)]\<rparr>)
   \<and> eval (\<lambda>name xs. 0) (\<lambda>name. 5) (Variable 2 ''a'' None) = eval (\<lambda>name xs. 0) (\<lambda>name. 5) (Variable 3 ''b'' None)
   \<and> eval (\<lambda>name xs. 0) (\<lambda>name. 5)
        (select_expr (op_le (Variable 2 ''a'' None) (Variable 3 ''b'' None)) (FloatImm 9 1) (float_const 0)) = 1
   \<and> eval (\<lambda>name xs. 0) (\<lambda>name. 5)
        (select_expr (op_le (Variable 3 ''b'' None) (Variable 2 ''a'' None)) (FloatImm 9 1) (float_const 0)) = 1"
  using binary_rules
          [of "ra_init\<lparr>accumulated_adjoints := [1 \<mapsto> FloatImm 9 1]\<rparr>" 1 "FloatImm 9 1"
              example_host "[]" "Variable 2 ''a'' None" "Variable 3 ''b'' None"
              "\<lambda>name xs. 0" "\<lambda>name. 5"]
  by (simp add: accumulate_def ra_init_def)

section \<open>Properties of the scatter\<close>

lemma lookup_func_name:
  "lookup_func env (Some g) = Some func \<Longrightarrow> func_name func = g"
  by (auto simp: lookup_func_def find_Some_iff)

lemma accumulate_exp_args_adjoint_funcs:
  "adjoint_funcs (accumulate_exp_args as adjoint s) = adjoint_funcs s
   \<and> ra_current_func_key (accumulate_exp_args as adjoint s) = ra_current_func_key s
   \<and> ra_current_bounds (accumulate_exp_args as adjoint s) = ra_current_bounds s"
  by (induction as adjoint s rule: accumulate_exp_args.induct)
     (simp_all add: accumulate_other_fields)

text \<open>
  C3. The visit of a call of the Halide function \<open>g\<close> that returns has read the adjoint of
  the call node, canonicalized it, and appended one update to one accumulator: the update
  \<open>acc(args) = acc(args) + adjoint'\<close>, where \<open>acc\<close> is the accumulator as it was, \<open>args\<close> are
  the domain variables of \<open>g\<close> and \<open>adjoint'\<close> is the canonicalized adjoint. Every other
  accumulator stays as it was. The accumulator is that of the stage before the current one
  when \<open>g\<close> is the function being processed, and that of the last update stage of \<open>g\<close> (the
  initialization when \<open>g\<close> has no update) otherwise. The bounds inferencer records the
  bounds of the call under the same key.
\<close>

theorem call_scatter_target:
  assumes "lookup_func env (Some g) = Some func"
    and "ra_visit h env (Call p name ct (Some g) op_args) s = Inr s'"
  shows "\<exists>target acc adjoint adjoint'.
           target = (if g = fst (ra_current_func_key s)
                     then (g, snd (ra_current_func_key s) - 1)
                     else (g, int (length (func_updates func)) - 1))
           \<and> acc = (case adjoint_funcs s target of None \<Rightarrow> default_func | Some a \<Rightarrow> a)
           \<and> accumulated_adjoints s p = Some adjoint
           \<and> canonicalize h op_args (func_args func) (ra_current_bounds s) 0 adjoint = Inr adjoint'
           \<and> adjoint_funcs s'
               = (adjoint_funcs s)
                   (target \<mapsto>
                      acc\<lparr>func_updates :=
                            func_updates acc @
                              [Bin fresh Add
                                 (Call fresh (func_name acc) Halide (Some (func_name acc))
                                    (map (\<lambda>v. Variable fresh v None) (func_args func)))
                                 adjoint']\<rparr>)
           \<and> call_key (ra_current_func_key s) func = target"
proof -
  have g: "func_name func = g"
    using assms(1) by (rule lookup_func_name)
  from assms(2) obtain adjoint where adj: "accumulated_adjoints s p = Some adjoint"
    by (auto split: option.splits)
  define s1 where "s1 = (if name = ''exp_f32'' then accumulate_exp_args op_args adjoint s else s)"
  have s1: "adjoint_funcs s1 = adjoint_funcs s" "ra_current_func_key s1 = ra_current_func_key s"
           "ra_current_bounds s1 = ra_current_bounds s"
    by (simp_all add: s1_def accumulate_exp_args_adjoint_funcs)
  from assms adj have sc: "scatter_call h func op_args adjoint s1 = Inr s'"
    by (simp add: s1_def)
  let ?target = "scatter_key (ra_current_func_key s) func"
  let ?acc = "case adjoint_funcs s ?target of None \<Rightarrow> default_func | Some a \<Rightarrow> a"
  from sc obtain adjoint' where
    can: "canonicalize h op_args (func_args func) (ra_current_bounds s) 0 adjoint = Inr adjoint'"
    and s': "s' = s1\<lparr>adjoint_funcs :=
              (adjoint_funcs s1)(?target \<mapsto> func_plus_eq (func_at (adjoint_funcs s1) ?target) (func_args func) adjoint')\<rparr>"
    by (auto simp: scatter_call_def Let_def s1 split: sum.splits)
  have upd: "func_plus_eq (func_at (adjoint_funcs s) ?target) (func_args func) adjoint'
             = ?acc\<lparr>func_updates :=
                      func_updates ?acc @
                        [Bin fresh Add
                           (Call fresh (func_name ?acc) Halide (Some (func_name ?acc))
                              (map (\<lambda>v. Variable fresh v None) (func_args func)))
                           adjoint']\<rparr>"
    by (simp add: func_plus_eq_def func_at_def call_func_def op_add_def var_expr_def)
  have "adjoint_funcs s'
          = (adjoint_funcs s)
              (?target \<mapsto>
                 ?acc\<lparr>func_updates :=
                        func_updates ?acc @
                          [Bin fresh Add
                             (Call fresh (func_name ?acc) Halide (Some (func_name ?acc))
                                (map (\<lambda>v. Variable fresh v None) (func_args func)))
                             adjoint']\<rparr>)"
    by (simp only: s' s1 upd) simp
  moreover have "?target = (if g = fst (ra_current_func_key s)
                            then (g, snd (ra_current_func_key s) - 1)
                            else (g, int (length (func_updates func)) - 1))"
    by (auto simp: scatter_key_def g)
  moreover have "call_key (ra_current_func_key s) func = ?target"
    by (auto simp: scatter_key_def call_key_def num_update_definitions_def)
  ultimately show ?thesis
    using adj can by blast
qed

text \<open>
  Instances: the function \<open>g\<close> with one update stage, with an accumulator for each of its
  two stages. The call \<open>g(r.x)\<close> with the adjoint \<open>2 * r.x\<close>, from the initialization of
  another function, adds \<open>2 * x\<close> to the accumulator of the update stage of \<open>g\<close>; the call
  \<open>g(0)\<close> with the adjoint \<open>1\<close>, from the update stage of \<open>g\<close> itself, adds \<open>1\<close> to the
  accumulator of the initialization. The other accumulator stays as it was.
\<close>

definition example_g :: func where
  "example_g = \<lparr>func_name = ''g'', func_args = [''x''], func_value = FloatImm 30 0,
                 func_updates = [FloatImm 31 1]\<rparr>"

definition example_acc0 :: func where
  "example_acc0 = \<lparr>func_name = ''g_0_d__'', func_args = [''x''], func_value = FloatImm 40 0,
                    func_updates = []\<rparr>"

definition example_acc1 :: func where
  "example_acc1 = \<lparr>func_name = ''g_1_d__'', func_args = [''x''], func_value = FloatImm 41 0,
                    func_updates = []\<rparr>"

definition example_rx :: expr where
  "example_rx = Variable 2 ''r$x'' (Some [ReductionVariable ''r$x'' (IntImm 3 0) (IntImm 4 5)])"

definition scatter_state :: "expr \<Rightarrow> func_key \<Rightarrow> reverse_accumulation_visitor" where
  "scatter_state adjoint key =
     ra_init\<lparr>accumulated_adjoints := [1 \<mapsto> adjoint], ra_current_func_key := key,
             adjoint_funcs := [(''g'', -1) \<mapsto> example_acc0, (''g'', 0) \<mapsto> example_acc1]\<rparr>"

theorem call_scatter_target_witness:
  "lookup_func [example_g] (Some ''g'') = Some example_g
   \<and> ra_visit example_host [example_g] (Call 1 ''g'' Halide (Some ''g'') [example_rx])
        (scatter_state (Bin 9 Mul (FloatImm 10 2) example_rx) (''f'', -1))
      = Inr ((scatter_state (Bin 9 Mul (FloatImm 10 2) example_rx) (''f'', -1))
               \<lparr>adjoint_funcs :=
                  [(''g'', -1) \<mapsto> example_acc0,
                   (''g'', 0) \<mapsto>
                     example_acc1\<lparr>func_updates :=
                       [Bin fresh Add
                          (Call fresh ''g_1_d__'' Halide (Some ''g_1_d__'') [Variable fresh ''x'' None])
                          (Bin fresh Mul (FloatImm 10 2) (Variable fresh ''x'' None))]\<rparr>]\<rparr>)
   \<and> (\<exists>adjoint'.
         canonicalize example_host [example_rx] [''x''] [] 0 (Bin 9 Mul (FloatImm 10 2) example_rx)
           = Inr adjoint'
         \<and> [(''g'', -1) \<mapsto> example_acc0,
            (''g'', 0) \<mapsto>
              example_acc1\<lparr>func_updates :=
                [Bin fresh Add
                   (Call fresh ''g_1_d__'' Halide (Some ''g_1_d__'') [Variable fresh ''x'' None])
                   (Bin fresh Mul (FloatImm 10 2) (Variable fresh ''x'' None))]\<rparr>] (''g'', 0)
           = Some (example_acc1\<lparr>func_updates :=
                     [Bin fresh Add
                        (Call fresh ''g_1_d__'' Halide (Some ''g_1_d__'') [Variable fresh ''x'' None])
                        adjoint']\<rparr>))
   \<and> ra_visit example_host [example_g] (Call 1 ''g'' Halide (Some ''g'') [IntImm 2 0])
        (scatter_state (FloatImm 9 1) (''g'', 0))
      = Inr ((scatter_state (FloatImm 9 1) (''g'', 0))
               \<lparr>adjoint_funcs :=
                  [(''g'', 0) \<mapsto> example_acc1,
                   (''g'', -1) \<mapsto>
                     example_acc0\<lparr>func_updates :=
                       [Bin fresh Add
                          (Call fresh ''g_0_d__'' Halide (Some ''g_0_d__'') [Variable fresh ''x'' None])
                          (FloatImm 9 1)]\<rparr>]\<rparr>)
   \<and> (\<exists>adjoint'.
         canonicalize example_host [IntImm 2 0] [''x''] [] 0 (FloatImm 9 1) = Inr adjoint'
         \<and> [(''g'', 0) \<mapsto> example_acc1,
            (''g'', -1) \<mapsto>
              example_acc0\<lparr>func_updates :=
                [Bin fresh Add
                   (Call fresh ''g_0_d__'' Halide (Some ''g_0_d__'') [Variable fresh ''x'' None])
                   (FloatImm 9 1)]\<rparr>] (''g'', -1)
           = Some (example_acc0\<lparr>func_updates :=
                     [Bin fresh Add
                        (Call fresh ''g_0_d__'' Halide (Some ''g_0_d__'') [Variable fresh ''x'' None])
                        adjoint']\<rparr>))"
proof -
  let ?adj1 = "Bin 9 Mul (FloatImm 10 2) example_rx"
  let ?call1 = "Call 1 ''g'' Halide (Some ''g'') [example_rx]"
  let ?call2 = "Call 1 ''g'' Halide (Some ''g'') [IntImm 2 0]"
  let ?u1 = "example_acc1\<lparr>func_updates :=
               [Bin fresh Add
                  (Call fresh ''g_1_d__'' Halide (Some ''g_1_d__'') [Variable fresh ''x'' None])
                  (Bin fresh Mul (FloatImm 10 2) (Variable fresh ''x'' None))]\<rparr>"
  let ?u0 = "example_acc0\<lparr>func_updates :=
               [Bin fresh Add
                  (Call fresh ''g_0_d__'' Halide (Some ''g_0_d__'') [Variable fresh ''x'' None])
                  (FloatImm 9 1)]\<rparr>"
  let ?m1 = "[(''g'', -1) \<mapsto> example_acc0, (''g'', 0) \<mapsto> ?u1]"
  let ?m2 = "[(''g'', 0) \<mapsto> example_acc1, (''g'', -1) \<mapsto> ?u0]"
  let ?s1 = "scatter_state ?adj1 (''f'', -1)"
  let ?s2 = "scatter_state (FloatImm 9 1) (''g'', 0)"
  have l: "lookup_func [example_g] (Some ''g'') = Some example_g"
    by (simp add: lookup_func_def example_g_def)
  have f: "func_name example_g = ''g''" "func_args example_g = [''x'']"
          "func_updates example_g = [FloatImm 31 1]"
    by (simp_all add: example_g_def)
  have a: "func_name example_acc0 = ''g_0_d__''" "func_name example_acc1 = ''g_1_d__''"
          "func_updates example_acc0 = []" "func_updates example_acc1 = []"
    by (simp_all add: example_acc0_def example_acc1_def)
  have c1: "canonicalize example_host [example_rx] [''x''] [] 0 ?adj1
            = Inr (Bin fresh Mul (FloatImm 10 2) (Variable fresh ''x'' None))"
    by (simp add: canonicalize.simps example_rx_def var_expr_def fresh_def Let_def)
  have c2: "canonicalize example_host [IntImm 2 0] [''x''] [] 0 (FloatImm 9 1) = Inr (FloatImm 9 1)"
    by (simp add: canonicalize.simps)
  have v1: "ra_visit example_host [example_g] ?call1 ?s1 = Inr (?s1\<lparr>adjoint_funcs := ?m1\<rparr>)"
    by (simp add: l f a c1 scatter_call_def scatter_key_def func_at_def func_plus_eq_def
          call_func_def op_add_def var_expr_def ra_init_def scatter_state_def Let_def)
  have v2: "ra_visit example_host [example_g] ?call2 ?s2 = Inr (?s2\<lparr>adjoint_funcs := ?m2\<rparr>)"
    by (simp add: l f a c2 scatter_call_def scatter_key_def func_at_def func_plus_eq_def
          call_func_def op_add_def var_expr_def ra_init_def scatter_state_def Let_def)
  from call_scatter_target[OF l v1] obtain target acc adjoint adjoint' where
    t: "target = (if ''g'' = fst (ra_current_func_key ?s1)
                  then (''g'', snd (ra_current_func_key ?s1) - 1)
                  else (''g'', int (length (func_updates example_g)) - 1))"
    and ac: "acc = (case adjoint_funcs ?s1 target of None \<Rightarrow> default_func | Some a \<Rightarrow> a)"
    and ad: "accumulated_adjoints ?s1 1 = Some adjoint"
    and ca: "canonicalize example_host [example_rx] (func_args example_g) (ra_current_bounds ?s1) 0 adjoint
             = Inr adjoint'"
    and up: "adjoint_funcs (?s1\<lparr>adjoint_funcs := ?m1\<rparr>)
             = (adjoint_funcs ?s1)
                 (target \<mapsto>
                    acc\<lparr>func_updates :=
                          func_updates acc @
                            [Bin fresh Add
                               (Call fresh (func_name acc) Halide (Some (func_name acc))
                                  (map (\<lambda>v. Variable fresh v None) (func_args example_g)))
                               adjoint']\<rparr>)"
    by (elim exE conjE)
  have t1: "target = (''g'', 0)"
    using t by (simp add: scatter_state_def f)
  have ac1: "acc = example_acc1"
    using ac by (simp add: t1 scatter_state_def)
  have ad1: "adjoint = ?adj1"
    using ad by (simp add: scatter_state_def)
  have ca1: "canonicalize example_host [example_rx] [''x''] [] 0 ?adj1 = Inr adjoint'"
    using ca by (simp add: ad1 f scatter_state_def ra_init_def)
  have "?m1 (''g'', 0)
          = Some (example_acc1\<lparr>func_updates :=
                    [Bin fresh Add
                       (Call fresh ''g_1_d__'' Halide (Some ''g_1_d__'') [Variable fresh ''x'' None])
                       adjoint']\<rparr>)"
    using fun_cong[OF up, of "(''g'', 0)"] by (simp add: t1 ac1 a f)
  with ca1 have one:
    "\<exists>adjoint'. canonicalize example_host [example_rx] [''x''] [] 0 ?adj1 = Inr adjoint'
        \<and> ?m1 (''g'', 0)
          = Some (example_acc1\<lparr>func_updates :=
                    [Bin fresh Add
                       (Call fresh ''g_1_d__'' Halide (Some ''g_1_d__'') [Variable fresh ''x'' None])
                       adjoint']\<rparr>)"
    by (intro exI conjI)
  from call_scatter_target[OF l v2] obtain target2 acc2 adjoint2 adjoint2' where
    t: "target2 = (if ''g'' = fst (ra_current_func_key ?s2)
                   then (''g'', snd (ra_current_func_key ?s2) - 1)
                   else (''g'', int (length (func_updates example_g)) - 1))"
    and ac: "acc2 = (case adjoint_funcs ?s2 target2 of None \<Rightarrow> default_func | Some a \<Rightarrow> a)"
    and ad: "accumulated_adjoints ?s2 1 = Some adjoint2"
    and ca: "canonicalize example_host [IntImm 2 0] (func_args example_g) (ra_current_bounds ?s2) 0 adjoint2
             = Inr adjoint2'"
    and up: "adjoint_funcs (?s2\<lparr>adjoint_funcs := ?m2\<rparr>)
             = (adjoint_funcs ?s2)
                 (target2 \<mapsto>
                    acc2\<lparr>func_updates :=
                          func_updates acc2 @
                            [Bin fresh Add
                               (Call fresh (func_name acc2) Halide (Some (func_name acc2))
                                  (map (\<lambda>v. Variable fresh v None) (func_args example_g)))
                               adjoint2']\<rparr>)"
    by (elim exE conjE)
  have t2: "target2 = (''g'', -1)"
    using t by (simp add: scatter_state_def)
  have ac2: "acc2 = example_acc0"
    using ac by (simp add: t2 scatter_state_def)
  have ad2: "adjoint2 = FloatImm 9 1"
    using ad by (simp add: scatter_state_def)
  have ca2: "canonicalize example_host [IntImm 2 0] [''x''] [] 0 (FloatImm 9 1) = Inr adjoint2'"
    using ca by (simp add: ad2 f scatter_state_def ra_init_def)
  have "?m2 (''g'', -1)
          = Some (example_acc0\<lparr>func_updates :=
                    [Bin fresh Add
                       (Call fresh ''g_0_d__'' Halide (Some ''g_0_d__'') [Variable fresh ''x'' None])
                       adjoint2']\<rparr>)"
    using fun_cong[OF up, of "(''g'', -1)"] by (simp add: t2 ac2 a f)
  with ca2 have two:
    "\<exists>adjoint'. canonicalize example_host [IntImm 2 0] [''x''] [] 0 (FloatImm 9 1) = Inr adjoint'
        \<and> ?m2 (''g'', -1)
          = Some (example_acc0\<lparr>func_updates :=
                    [Bin fresh Add
                       (Call fresh ''g_0_d__'' Halide (Some ''g_0_d__'') [Variable fresh ''x'' None])
                       adjoint']\<rparr>)"
    by (intro exI conjI)
  show ?thesis
    by (intro conjI) (rule l v1 one v2 two)+
qed

text \<open>
  C2. The replacement for a domain variable that is missing from the call is
  \<^verbatim>\<open>current_bounds\<close> as a whole, converted to an expression by the host; the position \<open>i\<close>
  of the variable does not enter. For the call \<open>g(0, 0)\<close> inside a stage with two domain
  variables, with the adjoint \<open>d(x, y)\<close>, both \<open>x\<close> and \<open>y\<close> are replaced by the same
  expression, whatever the conversion gives and whatever the bounds of the two coordinates
  are; when the conversion fails the visit fails.
\<close>

theorem canonicalize_ignores_coordinate:
  "canonicalize h [IntImm 1 0, IntImm 2 0] [''x'', ''y''] cur_bounds 0
      (Call 3 ''d'' Halide (Some ''d'') [Variable 4 ''x'' None, Variable 5 ''y'' None])
   = (case rdom_as_expr h cur_bounds of
        Inl e \<Rightarrow> Inl e
      | Inr r \<Rightarrow> Inr (Call fresh ''d'' Halide (Some ''d'') [substitute ''y'' r r, r]))"
  by (simp add: canonicalize.simps Let_def split: sum.splits)

section \<open>Entries of the adjoint map during a pass\<close>

text \<open>
  \<open>extends v v'\<close>: the expression \<open>v'\<close> is \<open>v\<close> with zero or more contributions added by
  \<^verbatim>\<open>+=\<close>. \<open>only_adds s s'\<close>: every entry of the adjoint map of \<open>s\<close> is still there in \<open>s'\<close>,
  with contributions added at most.
\<close>

fun extends :: "expr \<Rightarrow> expr \<Rightarrow> bool" where
  "extends v (Bin p f l r) = (Bin p f l r = v \<or> (p = fresh \<and> f = Add \<and> extends v l))"
| "extends v e = (e = v)"

definition only_adds ::
  "reverse_accumulation_visitor \<Rightarrow> reverse_accumulation_visitor \<Rightarrow> bool" where
  "only_adds s s' =
     (\<forall>p v. accumulated_adjoints s p = Some v \<longrightarrow>
        (\<exists>v'. accumulated_adjoints s' p = Some v' \<and> extends v v'))"

lemma extends_refl [simp]: "extends v v"
  by (cases v) simp_all

lemma extends_op_add: "extends v v' \<Longrightarrow> extends v (op_add v' x)"
  by (simp add: op_add_def)

lemma extends_trans: "extends a b \<Longrightarrow> extends b c \<Longrightarrow> extends a c"
proof (induction b c rule: extends.induct)
  case (1 v p f l r)
  then show ?case by (cases "Bin p f l r = v") auto
qed auto

lemma only_adds_refl [simp]: "only_adds s s"
  by (auto simp: only_adds_def)

lemma only_adds_trans: "only_adds s s1 \<Longrightarrow> only_adds s1 s2 \<Longrightarrow> only_adds s s2"
  unfolding only_adds_def by (meson extends_trans)

lemma only_adds_same_map:
  "accumulated_adjoints s' = accumulated_adjoints s \<Longrightarrow> only_adds s s'"
  by (auto simp: only_adds_def)

lemma only_adds_let_var_mapping [simp]:
  "only_adds s (s'\<lparr>let_var_mapping := m\<rparr>) = only_adds s s'"
  by (simp add: only_adds_def)

lemma only_adds_dom: "only_adds s s' \<Longrightarrow> dom (accumulated_adjoints s) \<subseteq> dom (accumulated_adjoints s')"
  by (auto simp: only_adds_def)

lemma only_adds_accumulate: "only_adds s (accumulate e a s)"
  by (auto simp: only_adds_def accumulate_adjoints extends_op_add split: option.splits)

lemma only_adds_accumulate_exp_args: "only_adds s (accumulate_exp_args as adjoint s)"
proof (induction as adjoint s rule: accumulate_exp_args.induct)
  case (2 a as adjoint s)
  then show ?case
    using only_adds_accumulate only_adds_trans by fastforce
qed simp

lemma scatter_call_adjoints:
  "scatter_call h func op_args adjoint s = Inr s' \<Longrightarrow> accumulated_adjoints s' = accumulated_adjoints s"
  by (auto simp: scatter_call_def Let_def split: sum.splits)

lemma only_adds_ra_visit: "ra_visit h env e s = Inr s' \<Longrightarrow> only_adds s s'"
proof (induction h env e s arbitrary: s' rule: ra_visit.induct)
  case (9 h env p name ct fn op_args s)
  from "9.prems" obtain adjoint where adj: "accumulated_adjoints s p = Some adjoint"
    by (auto split: option.splits)
  define s1 where "s1 = (if name = ''exp_f32'' then accumulate_exp_args op_args adjoint s else s)"
  have a1: "only_adds s s1"
    by (simp add: s1_def only_adds_accumulate_exp_args)
  have "only_adds s1 s'"
  proof (cases fn)
    case None
    with "9.prems" adj have "s' = s1" by (simp add: s1_def)
    then show ?thesis by simp
  next
    case (Some f)
    with "9.prems" adj obtain func where "scatter_call h func op_args adjoint s1 = Inr s'"
      by (auto simp: s1_def split: option.splits)
    then show ?thesis
      by (intro only_adds_same_map scatter_call_adjoints)
  qed
  with a1 show ?case by (rule only_adds_trans)
next
  case (13 h env p c t f s)
  from "13.prems" obtain s1 s2 where
    v: "ra_visit h env c s = Inr s1" "ra_visit h env t s1 = Inr s2" "ra_visit h env f s2 = Inr s'"
    by (auto split: sum.splits)
  have "only_adds s s1" "only_adds s1 s2" "only_adds s2 s'"
    using "13.IH" v by auto
  then show ?case
    by (meson only_adds_trans)
qed (auto split: option.splits sum.splits
       intro: only_adds_accumulate only_adds_trans only_adds_trans[OF only_adds_trans])

lemma only_adds_fold_ra_visit:
  "fold_e (ra_visit h env) es s = Inr s' \<Longrightarrow> only_adds s s'"
proof (induction es arbitrary: s)
  case (Cons e es)
  then show ?case
    by (auto split: sum.splits dest: only_adds_ra_visit intro: only_adds_trans)
qed simp

lemma fold_e_rel:
  assumes step: "\<And>x s s'. f x s = Inr s' \<Longrightarrow> R s s'"
    and refl: "\<And>s. R s s"
    and trans: "\<And>a b c. R a b \<Longrightarrow> R b c \<Longrightarrow> R a c"
  shows "fold_e f xs s = Inr s' \<Longrightarrow> R s s'"
proof (induction xs arbitrary: s)
  case Nil
  then show ?case by (simp add: refl)
next
  case (Cons x xs)
  then obtain s1 where "f x s = Inr s1" "fold_e f xs s1 = Inr s'"
    by (auto split: sum.splits)
  with Cons.IH step trans show ?case by blast
qed

lemma last_get_expr_list [simp]: "last (get_expr_list e) = e"
  by (simp add: get_expr_list_def es_sort_def Let_def)

text \<open>The seed of a stage, then the walk of its list.\<close>

lemma propagate_stage_seed:
  assumes "propagate_stage h env f update_id s = Inr s'"
  shows "\<exists>bounds wrapped.
           ra_func_bounds s (func_name f, update_id) = Some bounds
           \<and> wrapped = constant_exterior h
                         (case adjoint_funcs s (func_name f, update_id) of
                            None \<Rightarrow> default_func | Some a \<Rightarrow> a)
                         (float_const 0) (rdom_to_vector bounds)
           \<and> only_adds
               (s\<lparr>accumulated_adjoints :=
                    (accumulated_adjoints s)
                      (addr_of (stage_expr f update_id) \<mapsto>
                         Call fresh (func_name wrapped) Halide (Some (func_name wrapped))
                           (map (\<lambda>v. Variable fresh v None) (func_args f)))\<rparr>)
               s'"
proof -
  from assms obtain bounds where b: "ra_func_bounds s (func_name f, update_id) = Some bounds"
    by (auto simp: propagate_stage_def Let_def split: option.splits)
  let ?wrapped = "constant_exterior h
                    (case adjoint_funcs s (func_name f, update_id) of
                       None \<Rightarrow> default_func | Some a \<Rightarrow> a)
                    (float_const 0) (rdom_to_vector bounds)"
  let ?seed = "Call fresh (func_name ?wrapped) Halide (Some (func_name ?wrapped))
                 (map (\<lambda>v. Variable fresh v None) (func_args f))"
  let ?s1 = "s\<lparr>ra_current_func_key := (func_name f, update_id),
               ra_current_bounds := bounds,
               adjoint_funcs := (adjoint_funcs s)((func_name f, update_id) \<mapsto> ?wrapped),
               accumulated_adjoints :=
                 (accumulated_adjoints s)(addr_of (stage_expr f update_id) \<mapsto> ?seed)\<rparr>"
  have seed: "call_func (constant_exterior h (func_at (adjoint_funcs s) (func_name f, update_id))
                           (float_const 0) (rdom_to_vector bounds))
                (map var_expr (func_args f)) = ?seed"
    by (simp add: call_func_def func_at_def var_expr_def)
  from assms b have "fold_e (ra_visit h env) (rev (get_expr_list (stage_expr f update_id))) ?s1 = Inr s'"
    by (simp add: propagate_stage_def Let_def seed) (simp add: func_at_def)
  then have "only_adds ?s1 s'"
    by (rule only_adds_fold_ra_visit)
  then have "only_adds
               (s\<lparr>accumulated_adjoints :=
                    (accumulated_adjoints s)(addr_of (stage_expr f update_id) \<mapsto> ?seed)\<rparr>)
               s'"
    by (simp add: only_adds_def)
  with b show ?thesis
    by blast
qed

lemma propagate_stage_dom:
  assumes "propagate_stage h env f update_id s = Inr s'"
  shows "dom (accumulated_adjoints s) \<subseteq> dom (accumulated_adjoints s')"
proof -
  from propagate_stage_seed[OF assms] obtain bounds wrapped where
    "ra_func_bounds s (func_name f, update_id) = Some bounds"
    and "wrapped = constant_exterior h
                     (case adjoint_funcs s (func_name f, update_id) of
                        None \<Rightarrow> default_func | Some a \<Rightarrow> a)
                     (float_const 0) (rdom_to_vector bounds)"
    and oa: "only_adds
       (s\<lparr>accumulated_adjoints :=
            (accumulated_adjoints s)
              (addr_of (stage_expr f update_id) \<mapsto>
                 Call fresh (func_name wrapped) Halide (Some (func_name wrapped))
                   (map (\<lambda>v. Variable fresh v None) (func_args f)))\<rparr>)
       s'"
    by (elim exE conjE)
  from only_adds_dom[OF oa] show ?thesis
    by auto
qed

lemma propagate_func_dom:
  "propagate_func h env f s = Inr s' \<Longrightarrow>
     dom (accumulated_adjoints s) \<subseteq> dom (accumulated_adjoints s')"
  unfolding propagate_func_def
  by (erule fold_e_rel[where R = "\<lambda>s s'. dom (accumulated_adjoints s) \<subseteq> dom (accumulated_adjoints s')",
        rotated -1])
     (auto dest: propagate_stage_dom)

lemma create_stubs_adjoints [simp]:
  "accumulated_adjoints (create_stubs funcs s) = accumulated_adjoints s"
proof -
  have inner: "accumulated_adjoints
                 (fold (\<lambda>update_id s2.
                          s2\<lparr>adjoint_funcs := (adjoint_funcs s2)((func_name f, update_id) \<mapsto> adjoint_stub f update_id)\<rparr>)
                    ids s1) = accumulated_adjoints s1" for f ids s1
    by (induction ids arbitrary: s1) simp_all
  show ?thesis
    unfolding create_stubs_def
    by (induction funcs arbitrary: s) (simp_all add: inner)
qed

lemma propagate_output_dom:
  assumes "propagate_output h env fuel output funcs s = Some (Inr s')"
  shows "dom (accumulated_adjoints s) \<subseteq> dom (accumulated_adjoints s')"
proof -
  from assms obtain bi where
    w: "fold_e (ra_visit h env) (rev (get_expr_list output))
          (accumulate output (float_const 1)
             (create_stubs funcs (s\<lparr>ra_func_bounds := get_func_bounds h bi\<rparr>))) = Inr s'"
    by (auto simp: propagate_output_def bind_r_def lift_r_def Let_def split: option.splits sum.splits)
  let ?s1 = "create_stubs funcs (s\<lparr>ra_func_bounds := get_func_bounds h bi\<rparr>)"
  have "dom (accumulated_adjoints s) \<subseteq> dom (accumulated_adjoints (accumulate output (float_const 1) ?s1))"
    using only_adds_dom[OF only_adds_accumulate[of ?s1 "output" "float_const 1"]] by simp
  also have "\<dots> \<subseteq> dom (accumulated_adjoints s')"
    using only_adds_dom[OF only_adds_fold_ra_visit[OF w]] .
  finally show ?thesis .
qed

lemma ra_propagate_adjoints_dom:
  assumes "ra_propagate_adjoints h env fuel output funcs s = Some (Inr s')"
  shows "dom (accumulated_adjoints s) \<subseteq> dom (accumulated_adjoints s')"
proof (cases "funcs = []")
  case True
  with assms show ?thesis
    by (simp add: ra_propagate_adjoints_def ok_def)
next
  case False
  with assms obtain s3 where
    o: "propagate_output h env fuel output funcs s = Some (Inr s3)"
    and l: "fold_e (propagate_func h env) funcs s3 = Inr s'"
    by (auto simp: ra_propagate_adjoints_def bind_r_def lift_r_def split: option.splits sum.splits)
  have "dom (accumulated_adjoints s3) \<subseteq> dom (accumulated_adjoints s')"
    by (rule fold_e_rel[where R = "\<lambda>s s'. dom (accumulated_adjoints s) \<subseteq> dom (accumulated_adjoints s')",
          OF _ _ _ l])
       (auto dest: propagate_func_dom)
  with propagate_output_dom[OF o] show ?thesis
    by blast
qed

text \<open>
  An instance: two functions whose initialization is the same node (address 20), both
  called by the output expression \<open>f(0) + g(0)\<close>.
\<close>

definition shared_value :: expr where
  "shared_value = Cast 20 (Float_t 32) (Variable 21 ''x'' None)"

definition example_f1 :: func where
  "example_f1 = \<lparr>func_name = ''f'', func_args = [''x''], func_value = shared_value, func_updates = []\<rparr>"

definition example_g1 :: func where
  "example_g1 = \<lparr>func_name = ''g'', func_args = [''x''], func_value = shared_value, func_updates = []\<rparr>"

definition example_loss :: expr where
  "example_loss = Bin 10 Add (Call 11 ''f'' Halide (Some ''f'') [IntImm 12 0])
                             (Call 13 ''g'' Halide (Some ''g'') [IntImm 14 0])"

lemmas example_pass_simps =
  propagate_output_def bi_inference_def bind_r_def lift_r_def ok_def fail_def bi_init_def
  lookup_func_def record_call_bounds_def arg_bounds_loop.simps call_key_def merge_loop.simps
  bi_stages.simps stage_context_def stage_expr_def num_update_definitions_def update_value_def
  get_func_bounds_def min_extent_bounds_def RDom_of_def create_stubs_def adjoint_stub_def
  to_string_def string_of_nat.simps get_expr_list_def es_sort_def es_include.simps accumulate_def
  scatter_call_def scatter_key_def canonicalize.simps func_at_def func_plus_eq_def call_func_def
  propagate_func_def propagate_stage_def example_host_def rdom_to_vector_def var_expr_def
  example_f1_def example_g1_def example_loss_def shared_value_def Let_def
  op_add_def op_sub_def int_const_def float_const_def upto.simps

text \<open>
  C9, as stated, fails: the driver seeds the root of every stage by assignment. In the pass
  over the instance the entry of node 20 is the call of the accumulator of \<open>f\<close> after the
  stage of \<open>f\<close>, and the stage of \<open>g\<close> replaces it by the call of the accumulator of \<open>g\<close>.
\<close>

theorem seeding_overwrites_counterexample:
  "(case propagate_output example_host [example_f1, example_g1] 1 example_loss
           [example_f1, example_g1] ra_init of
      Some (Inr s3) \<Rightarrow>
        (case propagate_func example_host [example_f1, example_g1] example_f1 s3 of
           Inr s4 \<Rightarrow>
             (case propagate_func example_host [example_f1, example_g1] example_g1 s4 of
                Inr s5 \<Rightarrow>
                  accumulated_adjoints s4 20 = Some (call_func (adjoint_stub example_f1 (-1)) [var_expr ''x''])
                  \<and> accumulated_adjoints s5 20 = Some (call_func (adjoint_stub example_g1 (-1)) [var_expr ''x''])
                  \<and> \<not> extends (call_func (adjoint_stub example_f1 (-1)) [var_expr ''x''])
                               (call_func (adjoint_stub example_g1 (-1)) [var_expr ''x''])
                  \<and> \<not> only_adds s4 s5
              | Inl e \<Rightarrow> False)
         | Inl e \<Rightarrow> False)
    | _ \<Rightarrow> False)"
  apply (simp add: example_pass_simps ra_init_def only_adds_def)
  apply (rule exI[of _ 20])
  apply simp
  done

text \<open>
  C9, amended. \<^verbatim>\<open>accumulate(e, a)\<close> sets the entry of the address of \<open>e\<close> to \<open>a\<close> when there
  is none and to the previous entry plus \<open>a\<close> otherwise, and touches no other entry. The
  visit of a node, and so the walk of an expression list, only adds to the entries that
  exist. The driver, before the walk of a stage, assigns to the root of the stage the call,
  at the domain variables of the function, of the accumulator of that stage wrapped by the
  boundary condition over the bounds of the stage; the walk of the stage only adds to the
  map seeded in this way. No entry is removed during a pass.
\<close>

theorem accumulation_is_additive:
  "accumulated_adjoints (accumulate e a s) =
     (accumulated_adjoints s)
       (addr_of e \<mapsto> (case accumulated_adjoints s (addr_of e) of None \<Rightarrow> a | Some prev \<Rightarrow> op_add prev a))
   \<and> (ra_visit h env n s = Inr s1 \<longrightarrow> only_adds s s1)
   \<and> (fold_e (ra_visit h env) es s = Inr s2 \<longrightarrow> only_adds s s2)
   \<and> (propagate_stage h env f update_id s = Inr s3 \<longrightarrow>
         (\<exists>bounds wrapped.
            ra_func_bounds s (func_name f, update_id) = Some bounds
            \<and> wrapped = constant_exterior h
                          (case adjoint_funcs s (func_name f, update_id) of
                             None \<Rightarrow> default_func | Some a \<Rightarrow> a)
                          (float_const 0) (rdom_to_vector bounds)
            \<and> only_adds
                (s\<lparr>accumulated_adjoints :=
                     (accumulated_adjoints s)
                       (addr_of (stage_expr f update_id) \<mapsto>
                          Call fresh (func_name wrapped) Halide (Some (func_name wrapped))
                            (map (\<lambda>v. Variable fresh v None) (func_args f)))\<rparr>)
                s3))
   \<and> (ra_propagate_adjoints h env fuel out funcs s = Some (Inr s4) \<longrightarrow>
         dom (accumulated_adjoints s) \<subseteq> dom (accumulated_adjoints s4))"
proof (intro conjI impI)
  show "accumulated_adjoints (accumulate e a s) =
          (accumulated_adjoints s)
            (addr_of e \<mapsto> (case accumulated_adjoints s (addr_of e) of None \<Rightarrow> a | Some prev \<Rightarrow> op_add prev a))"
    by (rule accumulate_adjoints)
next
  assume "ra_visit h env n s = Inr s1"
  then show "only_adds s s1" by (rule only_adds_ra_visit)
next
  assume "fold_e (ra_visit h env) es s = Inr s2"
  then show "only_adds s s2" by (rule only_adds_fold_ra_visit)
next
  assume "propagate_stage h env f update_id s = Inr s3"
  then show "\<exists>bounds wrapped.
            ra_func_bounds s (func_name f, update_id) = Some bounds
            \<and> wrapped = constant_exterior h
                          (case adjoint_funcs s (func_name f, update_id) of
                             None \<Rightarrow> default_func | Some a \<Rightarrow> a)
                          (float_const 0) (rdom_to_vector bounds)
            \<and> only_adds
                (s\<lparr>accumulated_adjoints :=
                     (accumulated_adjoints s)
                       (addr_of (stage_expr f update_id) \<mapsto>
                          Call fresh (func_name wrapped) Halide (Some (func_name wrapped))
                            (map (\<lambda>v. Variable fresh v None) (func_args f)))\<rparr>)
                s3"
    by (rule propagate_stage_seed)
next
  assume "ra_propagate_adjoints h env fuel out funcs s = Some (Inr s4)"
  then show "dom (accumulated_adjoints s) \<subseteq> dom (accumulated_adjoints s4)"
    by (rule ra_propagate_adjoints_dom)
qed

text \<open>
  Instances: a pass that keeps an entry it started with; a product whose first operand has
  an adjoint already; and the stage of \<open>f\<close> started in a state where its root (address 20)
  has the entry \<open>7\<close> and the accumulator of the stage is \<open>f_0_d__\<close>: the entry of the root
  becomes the call \<open>f_0_d__(x)\<close>, and the operand of the root gets its adjoint from it.
\<close>

definition example_acc_f :: func where
  "example_acc_f = \<lparr>func_name = ''f_0_d__'', func_args = [''x''], func_value = FloatImm 52 0,
                     func_updates = []\<rparr>"

definition seeded_state :: reverse_accumulation_visitor where
  "seeded_state =
     ra_init\<lparr>ra_func_bounds := [(''f'', -1) \<mapsto> []],
             adjoint_funcs := [(''f'', -1) \<mapsto> example_acc_f],
             accumulated_adjoints := [20 \<mapsto> FloatImm 51 7]\<rparr>"

theorem accumulation_is_additive_witness:
  "(\<exists>s4. ra_propagate_adjoints example_host [example_f1, example_g1] 1 example_loss
            [example_f1, example_g1] (ra_init\<lparr>accumulated_adjoints := [99 \<mapsto> FloatImm 98 1]\<rparr>)
          = Some (Inr s4)
        \<and> 99 \<in> dom (accumulated_adjoints s4))
   \<and> (\<exists>s1. ra_visit example_host [] (Bin 1 Mul (Variable 2 ''a'' None) (Variable 3 ''b'' None))
              (ra_init\<lparr>accumulated_adjoints := [1 \<mapsto> FloatImm 9 1, 2 \<mapsto> FloatImm 8 1]\<rparr>) = Inr s1
         \<and> only_adds (ra_init\<lparr>accumulated_adjoints := [1 \<mapsto> FloatImm 9 1, 2 \<mapsto> FloatImm 8 1]\<rparr>) s1
         \<and> accumulated_adjoints s1 2
             = Some (op_add (FloatImm 8 1) (op_mul (FloatImm 9 1) (Variable 3 ''b'' None))))
   \<and> (\<exists>s3. propagate_stage example_host [example_f1] example_f1 (-1) seeded_state = Inr s3
         \<and> only_adds
             (seeded_state\<lparr>accumulated_adjoints :=
                [20 \<mapsto> Call fresh ''f_0_d__'' Halide (Some ''f_0_d__'') [Variable fresh ''x'' None]]\<rparr>)
             s3
         \<and> accumulated_adjoints s3 20
             = Some (Call fresh ''f_0_d__'' Halide (Some ''f_0_d__'') [Variable fresh ''x'' None])
         \<and> accumulated_adjoints s3 21
             = Some (Call fresh ''f_0_d__'' Halide (Some ''f_0_d__'') [Variable fresh ''x'' None]))"
proof -
  let ?start = "ra_init\<lparr>accumulated_adjoints := [99 \<mapsto> FloatImm 98 1]\<rparr>"
  have "\<exists>s4. ra_propagate_adjoints example_host [example_f1, example_g1] 1 example_loss
               [example_f1, example_g1] ?start = Some (Inr s4)"
    by (simp add: ra_propagate_adjoints_def example_pass_simps ra_init_def)
  then obtain s4 where
    p: "ra_propagate_adjoints example_host [example_f1, example_g1] 1 example_loss
          [example_f1, example_g1] ?start = Some (Inr s4)" ..
  have "dom (accumulated_adjoints ?start) \<subseteq> dom (accumulated_adjoints s4)"
    using accumulation_is_additive
            [of example_loss "float_const 1" ?start example_host "[example_f1, example_g1]" example_loss s4
                "[]" s4 example_f1 "-1" s4 1 example_loss "[example_f1, example_g1]" s4] p
    by (elim conjE) (erule (1) mp)
  then have one: "99 \<in> dom (accumulated_adjoints s4)"
    by auto
  let ?s = "ra_init\<lparr>accumulated_adjoints := [1 \<mapsto> FloatImm 9 1, 2 \<mapsto> FloatImm 8 1]\<rparr>"
  let ?n = "Bin 1 Mul (Variable 2 ''a'' None) (Variable 3 ''b'' None)"
  let ?s1 = "accumulate (Variable 3 ''b'' None) (op_mul (FloatImm 9 1) (Variable 2 ''a'' None))
               (accumulate (Variable 2 ''a'' None) (op_mul (FloatImm 9 1) (Variable 3 ''b'' None)) ?s)"
  have v: "ra_visit example_host [] ?n ?s = Inr ?s1"
    by simp
  have oa: "only_adds ?s ?s1"
    using accumulation_is_additive
            [of example_loss "float_const 1" ?s example_host "[]" ?n ?s1
                "[]" ?s example_f1 "-1" ?s 1 example_loss "[]" ?s] v
    by (elim conjE) (erule (1) mp)
  have e2: "accumulated_adjoints ?s1 2
              = Some (op_add (FloatImm 8 1) (op_mul (FloatImm 9 1) (Variable 3 ''b'' None)))"
    by (simp add: accumulate_def)
  let ?seed = "Call fresh ''f_0_d__'' Halide (Some ''f_0_d__'') [Variable fresh ''x'' None]"
  let ?s3 = "seeded_state\<lparr>ra_current_func_key := (''f'', -1), ra_current_bounds := [],
               accumulated_adjoints := [20 \<mapsto> ?seed, 21 \<mapsto> ?seed]\<rparr>"
  have st: "propagate_stage example_host [example_f1] example_f1 (-1) seeded_state = Inr ?s3"
    by (simp add: example_pass_simps ra_init_def seeded_state_def example_acc_f_def)
  from accumulation_is_additive
         [of example_loss "float_const 1" seeded_state example_host "[example_f1]" example_loss ?s3
             "[]" ?s3 example_f1 "-1" ?s3 1 example_loss "[]" ?s3] st
  have "\<exists>bounds wrapped.
          ra_func_bounds seeded_state (func_name example_f1, -1) = Some bounds
          \<and> wrapped = constant_exterior example_host
                        (case adjoint_funcs seeded_state (func_name example_f1, -1) of
                           None \<Rightarrow> default_func | Some a \<Rightarrow> a)
                        (float_const 0) (rdom_to_vector bounds)
          \<and> only_adds
              (seeded_state\<lparr>accumulated_adjoints :=
                   (accumulated_adjoints seeded_state)
                     (addr_of (stage_expr example_f1 (-1)) \<mapsto>
                        Call fresh (func_name wrapped) Halide (Some (func_name wrapped))
                          (map (\<lambda>v. Variable fresh v None) (func_args example_f1)))\<rparr>)
              ?s3"
    by (elim conjE) (erule (1) mp)
  then obtain bounds wrapped where
    w: "wrapped = constant_exterior example_host
                    (case adjoint_funcs seeded_state (func_name example_f1, -1) of
                       None \<Rightarrow> default_func | Some a \<Rightarrow> a)
                    (float_const 0) (rdom_to_vector bounds)"
    and o3: "only_adds
              (seeded_state\<lparr>accumulated_adjoints :=
                   (accumulated_adjoints seeded_state)
                     (addr_of (stage_expr example_f1 (-1)) \<mapsto>
                        Call fresh (func_name wrapped) Halide (Some (func_name wrapped))
                          (map (\<lambda>v. Variable fresh v None) (func_args example_f1)))\<rparr>)
              ?s3"
    by (elim exE conjE)
  have wn: "func_name wrapped = ''f_0_d__''"
    by (simp add: w example_host_def seeded_state_def example_f1_def example_acc_f_def)
  have "seeded_state\<lparr>accumulated_adjoints :=
                   (accumulated_adjoints seeded_state)
                     (addr_of (stage_expr example_f1 (-1)) \<mapsto>
                        Call fresh (func_name wrapped) Halide (Some (func_name wrapped))
                          (map (\<lambda>v. Variable fresh v None) (func_args example_f1)))\<rparr>
        = seeded_state\<lparr>accumulated_adjoints := [20 \<mapsto> ?seed]\<rparr>"
    by (simp add: wn seeded_state_def stage_expr_def example_f1_def shared_value_def)
  with o3 have o3': "only_adds (seeded_state\<lparr>accumulated_adjoints := [20 \<mapsto> ?seed]\<rparr>) ?s3"
    by (simp only:)
  have e3: "accumulated_adjoints ?s3 20 = Some ?seed" "accumulated_adjoints ?s3 21 = Some ?seed"
    by simp_all
  have three:
    "\<exists>s3. propagate_stage example_host [example_f1] example_f1 (-1) seeded_state = Inr s3
         \<and> only_adds (seeded_state\<lparr>accumulated_adjoints := [20 \<mapsto> ?seed]\<rparr>) s3
         \<and> accumulated_adjoints s3 20 = Some ?seed
         \<and> accumulated_adjoints s3 21 = Some ?seed"
    using st o3' e3 by (intro exI[of _ ?s3] conjI)
  have two:
    "\<exists>s1. ra_visit example_host [] ?n ?s = Inr s1 \<and> only_adds ?s s1
         \<and> accumulated_adjoints s1 2
             = Some (op_add (FloatImm 8 1) (op_mul (FloatImm 9 1) (Variable 3 ''b'' None)))"
    using v oa e2 by (intro exI[of _ ?s1] conjI)
  have first: "\<exists>s4. ra_propagate_adjoints example_host [example_f1, example_g1] 1 example_loss
            [example_f1, example_g1] ?start = Some (Inr s4) \<and> 99 \<in> dom (accumulated_adjoints s4)"
    using p one by (intro exI[of _ s4] conjI)
  show ?thesis
    by (intro conjI) (rule first two three)+
qed

section \<open>Calls without a derivative rule\<close>








section \<open>Properties of the topological order\<close>

text \<open>
  The operands the sorter includes from a node, and the nodes it reaches from an
  expression: a call of a Halide function or of an image is a leaf.
\<close>

fun es_children :: "expr \<Rightarrow> expr list" where
  "es_children (Call p name ct fn args) = (if ct = Halide \<or> ct = Image then [] else args)"
| "es_children (Cast p t v) = [v]"
| "es_children (Bin p f a b) = [a, b]"
| "es_children (NotOp p a) = [a]"
| "es_children (Select p c t f) = [c, t, f]"
| "es_children (LetIn p name v b) = [v, b]"
| "es_children e = []"

fun es_nodes :: "expr \<Rightarrow> expr set" where
  "es_nodes (Call p name ct fn args) =
     insert (Call p name ct fn args)
       (if ct = Halide \<or> ct = Image then {} else (\<Union>a\<in>set args. es_nodes a))"
| "es_nodes (Cast p t v) = insert (Cast p t v) (es_nodes v)"
| "es_nodes (Bin p f a b) = insert (Bin p f a b) (es_nodes a \<union> es_nodes b)"
| "es_nodes (NotOp p a) = insert (NotOp p a) (es_nodes a)"
| "es_nodes (Select p c t f) = insert (Select p c t f) (es_nodes c \<union> es_nodes t \<union> es_nodes f)"
| "es_nodes (LetIn p name v b) = insert (LetIn p name v b) (es_nodes v \<union> es_nodes b)"
| "es_nodes e = {e}"

definition children_first :: "expr list \<Rightarrow> bool" where
  "children_first L = (\<forall>i<length L. set (es_children (L ! i)) \<subseteq> set (take i L))"

definition es_inv :: "expr set \<Rightarrow> addr set \<Rightarrow> expression_sorter \<Rightarrow> bool" where
  "es_inv U S s =
     (set (expr_list s) \<subseteq> U
      \<and> es_visited s = addr_of ` set (expr_list s) \<union> S
      \<and> S \<inter> addr_of ` set (expr_list s) = {}
      \<and> distinct (map addr_of (expr_list s))
      \<and> children_first (expr_list s))"

definition es_post ::
  "expr set \<Rightarrow> addr set \<Rightarrow> expression_sorter \<Rightarrow> expr set \<Rightarrow> expression_sorter \<Rightarrow> bool" where
  "es_post U S s X s' =
     (es_inv U S s'
      \<and> set (expr_list s') = set (expr_list s) \<union> X
      \<and> (\<exists>new. expr_list s' = expr_list s @ new))"

lemma es_nodes_unfold: "es_nodes e = insert e (\<Union>c\<in>set (es_children e). es_nodes c)"
  by (cases e) auto

lemma es_nodes_self [simp]: "e \<in> es_nodes e"
  by (subst es_nodes_unfold) simp

lemma es_children_size: "c \<in> set (es_children e) \<Longrightarrow> size c < size e"
  by (cases e) (auto split: if_splits dest: size_list_estimation'[where f = size and y = "size c"] simp: less_Suc_eq_le)

lemma es_nodes_size: "n \<in> es_nodes e \<Longrightarrow> size n \<le> size e"
proof (induction e arbitrary: n rule: measure_induct_rule[of size])
  case (less e)
  from less.prems have "n = e \<or> (\<exists>c\<in>set (es_children e). n \<in> es_nodes c)"
    by (subst (asm) es_nodes_unfold) auto
  then show ?case
  proof
    assume "n = e" then show ?thesis by simp
  next
    assume "\<exists>c\<in>set (es_children e). n \<in> es_nodes c"
    then obtain c where c: "c \<in> set (es_children e)" "n \<in> es_nodes c" by blast
    from es_children_size[OF c(1)] less.IH[OF _ c(2)] show ?thesis by simp
  qed
qed

lemma es_accept_children: "es_accept e s = es_include_args (es_children e) s"
  by (cases e) auto

lemma children_first_snoc: "children_first L \<Longrightarrow> set (es_children e) \<subseteq> set L \<Longrightarrow> children_first (L @ [e])"
  unfolding children_first_def
  by (auto simp: nth_append less_Suc_eq)

lemma children_first_closed: "children_first L \<Longrightarrow> n \<in> set L \<Longrightarrow> set (es_children n) \<subseteq> set L"
  unfolding children_first_def
  by (metis in_set_conv_nth set_take_subset subset_trans)

lemma closed_nodes:
  "children_first L \<Longrightarrow> e \<in> set L \<Longrightarrow> es_nodes e \<subseteq> set L"
proof (induction e rule: measure_induct_rule[of size])
  case (less e)
  have "es_nodes c \<subseteq> set L" if "c \<in> set (es_children e)" for c
    using less.IH[OF es_children_size[OF that] less.prems(1)] children_first_closed[OF less.prems] that
    by blast
  with less.prems(2) show ?case
    by (subst es_nodes_unfold) auto
qed


lemma es_post_refl: "es_inv U S s \<Longrightarrow> es_post U S s {} s"
  by (simp add: es_post_def)

lemma es_post_inv: "es_post U S s X s' \<Longrightarrow> es_inv U S s'"
  by (simp add: es_post_def)

lemma es_post_trans:
  "es_post U S s X s1 \<Longrightarrow> es_post U S s1 Y s2 \<Longrightarrow> es_post U S s (X \<union> Y) s2"
  by (auto simp: es_post_def)

lemma es_include_visited:
  assumes inj: "inj_on addr_of U"
    and inv: "es_inv U S s"
    and sub: "es_nodes e \<subseteq> U"
    and dis: "addr_of ` es_nodes e \<inter> S = {}"
    and vis: "addr_of e \<in> es_visited s"
  shows "es_post U S s (es_nodes e) s"
proof -
  have "addr_of e \<notin> S"
    using dis es_nodes_self[of e] by blast
  with vis inv obtain n where n: "n \<in> set (expr_list s)" "addr_of n = addr_of e"
    by (auto simp: es_inv_def)
  have "n \<in> U" "e \<in> U"
    using n(1) inv sub by (auto simp: es_inv_def)
  with inj n(2) have "n = e"
    by (auto dest: inj_onD)
  with n(1) inv have "es_nodes e \<subseteq> set (expr_list s)"
    by (auto simp: es_inv_def dest: closed_nodes)
  with inv show ?thesis
    by (auto simp: es_post_def)
qed

lemma es_include_new:
  assumes inj: "inj_on addr_of U"
    and inv: "es_inv U S s"
    and sub: "es_nodes e \<subseteq> U"
    and dis: "addr_of ` es_nodes e \<inter> S = {}"
    and vis: "addr_of e \<notin> es_visited s"
    and IH: "\<And>S'. es_inv U S' (s\<lparr>es_visited := insert (addr_of e) (es_visited s)\<rparr>) \<Longrightarrow>
               (\<forall>c\<in>set (es_children e). es_nodes c \<subseteq> U \<and> addr_of ` es_nodes c \<inter> S' = {}) \<Longrightarrow>
               es_post U S' (s\<lparr>es_visited := insert (addr_of e) (es_visited s)\<rparr>)
                 (\<Union>c\<in>set (es_children e). es_nodes c)
                 (es_accept e (s\<lparr>es_visited := insert (addr_of e) (es_visited s)\<rparr>))"
  shows "es_post U S s (es_nodes e) (es_include e s)"
proof -
  let ?S' = "insert (addr_of e) S"
  let ?s1 = "s\<lparr>es_visited := insert (addr_of e) (es_visited s)\<rparr>"
  let ?X = "\<Union>c\<in>set (es_children e). es_nodes c"
  let ?s2 = "es_accept e ?s1"
  let ?L = "expr_list s"
  have eU: "e \<in> U" using sub by auto
  have eS: "addr_of e \<notin> S" using dis es_nodes_self[of e] by blast
  have eL: "addr_of e \<notin> addr_of ` set ?L"
    using vis inv by (auto simp: es_inv_def)
  have inv1: "es_inv U ?S' ?s1"
    using inv eL by (auto simp: es_inv_def)
  have ch: "\<forall>c\<in>set (es_children e). es_nodes c \<subseteq> U \<and> addr_of ` es_nodes c \<inter> ?S' = {}"
  proof
    fix c assume c: "c \<in> set (es_children e)"
    have cs: "es_nodes c \<subseteq> es_nodes e"
      using c by (subst (2) es_nodes_unfold) auto
    have ne: "addr_of n \<noteq> addr_of e" if "n \<in> es_nodes c" for n
    proof
      assume "addr_of n = addr_of e"
      moreover have "n \<in> U" using that cs sub by auto
      ultimately have "n = e" using inj eU by (auto dest: inj_onD)
      with es_nodes_size[OF that] es_children_size[OF c] show False by simp
    qed
    have "addr_of ` es_nodes c \<subseteq> addr_of ` es_nodes e"
      using cs by (rule image_mono)
    with dis have "addr_of ` es_nodes c \<inter> S = {}"
      by fast
    moreover have "addr_of e \<notin> addr_of ` es_nodes c"
      using ne by (metis imageE)
    ultimately have "addr_of ` es_nodes c \<inter> ?S' = {}"
      by simp
    moreover have "es_nodes c \<subseteq> U"
      using cs sub by (rule subset_trans)
    ultimately show "es_nodes c \<subseteq> U \<and> addr_of ` es_nodes c \<inter> ?S' = {}"
      by simp
  qed
  from IH[OF inv1 ch] have post: "es_post U ?S' ?s1 ?X ?s2" .
  then obtain new where
    inv2: "es_inv U ?S' ?s2"
    and set2: "set (expr_list ?s2) = set ?L \<union> ?X"
    and app: "expr_list ?s2 = ?L @ new"
    by (auto simp: es_post_def)
  have res: "es_include e s = ?s2\<lparr>expr_list := expr_list ?s2 @ [e]\<rparr>"
    using vis by (subst es_include.simps) (simp add: Let_def)
  have chX: "set (es_children e) \<subseteq> set (expr_list ?s2)"
    using set2 by auto
  have e2: "addr_of e \<notin> addr_of ` set (expr_list ?s2)"
    using inv2 by (auto simp: es_inv_def)
  have "es_inv U S (es_include e s)"
    unfolding res using inv2 eU eS e2 chX
    by (auto simp: es_inv_def intro: children_first_snoc)
  moreover have "set (expr_list (es_include e s)) = set ?L \<union> es_nodes e"
    unfolding res using set2 by (subst es_nodes_unfold) auto
  moreover have "\<exists>new'. expr_list (es_include e s) = ?L @ new'"
    unfolding res using app by simp
  ultimately show ?thesis
    by (simp add: es_post_def)
qed

lemma es_traversal_post:
  assumes inj: "inj_on addr_of U"
  shows "es_inv U S s \<Longrightarrow> es_nodes e \<subseteq> U \<Longrightarrow> addr_of ` es_nodes e \<inter> S = {} \<Longrightarrow>
           es_post U S s (es_nodes e) (es_include e s)"
    and "es_inv U S s \<Longrightarrow>
           (\<forall>c\<in>set (es_children e'). es_nodes c \<subseteq> U \<and> addr_of ` es_nodes c \<inter> S = {}) \<Longrightarrow>
           es_post U S s (\<Union>c\<in>set (es_children e'). es_nodes c) (es_accept e' s)"
    and "es_inv U S s \<Longrightarrow>
           (\<forall>c\<in>set es. es_nodes c \<subseteq> U \<and> addr_of ` es_nodes c \<inter> S = {}) \<Longrightarrow>
           es_post U S s (\<Union>c\<in>set es. es_nodes c) (es_include_args es s)"
proof (induction e s and e' s and es s arbitrary: S and S and S
        rule: es_include_es_accept_es_include_args.induct)
  case (1 e s)
  show ?case
  proof (cases "addr_of e \<in> es_visited s")
    case True
    then have "es_include e s = s"
      by (subst es_include.simps) simp
    with es_include_visited[OF inj "1.prems" True] show ?thesis by simp
  next
    case False
    show ?thesis
      by (rule es_include_new[OF inj "1.prems" False]) (rule "1.IH"[OF False]; assumption)
  qed
next
  case (2 p name ct fn args s)
  then show ?case
    by (auto simp: es_post_refl)
next
  case (3 p t v s)
  then show ?case by auto
next
  case (4 p f a b s)
  from "4.IH"(1)[OF "4.prems"(1)] "4.prems"(2)
  have p1: "es_post U S s (es_nodes a) (es_include a s)" by simp
  from "4.IH"(2)[OF es_post_inv[OF p1]] "4.prems"(2)
  have p2: "es_post U S (es_include a s) (es_nodes b) (es_include b (es_include a s))" by simp
  from es_post_trans[OF p1 p2] show ?case by simp
next
  case (5 p a s)
  then show ?case by auto
next
  case (6 p c t f s)
  from "6.IH"(1)[OF "6.prems"(1)] "6.prems"(2)
  have p1: "es_post U S s (es_nodes c) (es_include c s)" by simp
  from "6.IH"(2)[OF es_post_inv[OF p1]] "6.prems"(2)
  have p2: "es_post U S (es_include c s) (es_nodes t) (es_include t (es_include c s))" by simp
  from "6.IH"(3)[OF es_post_inv[OF p2]] "6.prems"(2)
  have p3: "es_post U S (es_include t (es_include c s)) (es_nodes f)
              (es_include f (es_include t (es_include c s)))" by simp
  from es_post_trans[OF es_post_trans[OF p1 p2] p3] show ?case by (simp add: Un_assoc)
next
  case (7 p name v b s)
  from "7.IH"(1)[OF "7.prems"(1)] "7.prems"(2)
  have p1: "es_post U S s (es_nodes v) (es_include v s)" by simp
  from "7.IH"(2)[OF es_post_inv[OF p1]] "7.prems"(2)
  have p2: "es_post U S (es_include v s) (es_nodes b) (es_include b (es_include v s))" by simp
  from es_post_trans[OF p1 p2] show ?case by simp
next
  case (10 a as s)
  from "10.IH"(1)[OF "10.prems"(1)] "10.prems"(2)
  have p1: "es_post U S s (es_nodes a) (es_include a s)" by simp
  from "10.IH"(2)[OF es_post_inv[OF p1]] "10.prems"(2)
  have p2: "es_post U S (es_include a s) (\<Union>c\<in>set as. es_nodes c)
              (es_include_args as (es_include a s))" by simp
  from es_post_trans[OF p1 p2] show ?case by simp
qed (simp_all add: es_post_refl)

lemma children_first_earlier:
  assumes "children_first L" and "i < length L" and "c \<in> set (es_children (L ! i))"
  shows "\<exists>j<i. L ! j = c"
proof -
  from assms have "c \<in> set (take i L)"
    by (auto simp: children_first_def)
  then obtain j where "j < length (take i L)" "take i L ! j = c"
    by (auto simp: in_set_conv_nth)
  then show ?thesis
    by (intro exI[of _ j]) auto
qed

lemma es_sort_result:
  assumes inj: "inj_on addr_of (es_nodes e0)"
  shows "set (get_expr_list e0) = es_nodes e0
         \<and> distinct (map addr_of (get_expr_list e0))
         \<and> children_first (get_expr_list e0)"
proof -
  let ?U = "es_nodes e0"
  let ?s0 = "\<lparr>es_visited = {}, expr_list = []\<rparr>"
  let ?X = "\<Union>c\<in>set (es_children e0). es_nodes c"
  let ?s1 = "es_accept e0 ?s0"
  have inv0: "es_inv ?U {} ?s0"
    by (simp add: es_inv_def children_first_def)
  have ch: "\<forall>c\<in>set (es_children e0). es_nodes c \<subseteq> ?U \<and> addr_of ` es_nodes c \<inter> {} = {}"
    by (subst (2) es_nodes_unfold) auto
  from es_traversal_post(2)[OF inj inv0 ch] have post: "es_post ?U {} ?s0 ?X ?s1" .
  then have inv1: "es_inv ?U {} ?s1" and set1: "set (expr_list ?s1) = ?X"
    by (auto simp: es_post_def)
  have L: "get_expr_list e0 = expr_list ?s1 @ [e0]"
    by (simp add: get_expr_list_def es_sort_def Let_def)
  have small: "size n < size e0" if "n \<in> ?X" for n
  proof -
    from that obtain c where c: "c \<in> set (es_children e0)" "n \<in> es_nodes c" by blast
    from es_nodes_size[OF c(2)] es_children_size[OF c(1)] show ?thesis by simp
  qed
  have XU: "?X \<subseteq> ?U"
    by (subst (2) es_nodes_unfold) auto
  have fresh_root: "addr_of e0 \<notin> addr_of ` set (expr_list ?s1)"
  proof
    assume "addr_of e0 \<in> addr_of ` set (expr_list ?s1)"
    then have "addr_of e0 \<in> addr_of ` ?X"
      by (simp only: set1)
    then obtain n where n: "n \<in> ?X" "addr_of n = addr_of e0"
      by (metis imageE)
    then have "n \<in> ?U" using XU by auto
    with inj n(2) have "n = e0"
      by (auto dest: inj_onD)
    with small[OF n(1)] show False by simp
  qed
  have "set (get_expr_list e0) = ?U"
    unfolding L using set1 by (subst es_nodes_unfold) auto
  moreover have "distinct (map addr_of (get_expr_list e0))"
    unfolding L using inv1 fresh_root by (auto simp: es_inv_def)
  moreover have "children_first (get_expr_list e0)"
    unfolding L
  proof (rule children_first_snoc)
    show "children_first (expr_list ?s1)" using inv1 by (simp add: es_inv_def)
    show "set (es_children e0) \<subseteq> set (expr_list ?s1)"
      unfolding set1 by auto
  qed
  ultimately show ?thesis by simp
qed



text \<open>
  C8. When an address stands for one node (two nodes reached from the expression that have
  the same address are the same node), the list of the sorter holds exactly the nodes
  reached from the expression, the root last, no address twice, and every node after all
  the operands the sorter includes from it. The arguments of a call of a Halide function or
  of an image are not included: the list of such a call is the call alone.
\<close>

theorem expression_sorter_topological:
  assumes "inj_on addr_of (es_nodes e0)"
  shows "set (get_expr_list e0) = es_nodes e0
         \<and> distinct (map addr_of (get_expr_list e0))
         \<and> last (get_expr_list e0) = e0
         \<and> (\<forall>i<length (get_expr_list e0).
               \<forall>c\<in>set (es_children (get_expr_list e0 ! i)). \<exists>j<i. get_expr_list e0 ! j = c)
         \<and> (ct = Halide \<or> ct = Image \<longrightarrow>
               get_expr_list (Call p name ct fn args) = [Call p name ct fn args])"
proof -
  have "get_expr_list (Call p name ct fn args) = [Call p name ct fn args]"
    if "ct = Halide \<or> ct = Image"
    using that by (auto simp: get_expr_list_def es_sort_def)
  with es_sort_result[OF assms] children_first_earlier[of "get_expr_list e0"] show ?thesis
    by auto
qed

text \<open>
  An instance: \<open>(x * x + x) + f(y)\<close> with the node of \<open>x\<close> shared by three operands.
\<close>

definition example_dag :: expr where
  "example_dag =
     Bin 6 Add
       (Bin 3 Add (Bin 2 Mul (Variable 1 ''x'' None) (Variable 1 ''x'' None)) (Variable 1 ''x'' None))
       (Call 4 ''f'' Halide (Some ''f'') [Variable 5 ''y'' None])"

theorem expression_sorter_topological_witness:
  "inj_on addr_of (es_nodes example_dag)
   \<and> get_expr_list example_dag =
       [Variable 1 ''x'' None,
        Bin 2 Mul (Variable 1 ''x'' None) (Variable 1 ''x'' None),
        Bin 3 Add (Bin 2 Mul (Variable 1 ''x'' None) (Variable 1 ''x'' None)) (Variable 1 ''x'' None),
        Call 4 ''f'' Halide (Some ''f'') [Variable 5 ''y'' None],
        example_dag]
   \<and> set (get_expr_list example_dag) = es_nodes example_dag
   \<and> distinct (map addr_of (get_expr_list example_dag))
   \<and> last (get_expr_list example_dag) = example_dag"
proof -
  have inj: "inj_on addr_of (es_nodes example_dag)"
    by (auto simp: example_dag_def)
  have l: "get_expr_list example_dag =
       [Variable 1 ''x'' None,
        Bin 2 Mul (Variable 1 ''x'' None) (Variable 1 ''x'' None),
        Bin 3 Add (Bin 2 Mul (Variable 1 ''x'' None) (Variable 1 ''x'' None)) (Variable 1 ''x'' None),
        Call 4 ''f'' Halide (Some ''f'') [Variable 5 ''y'' None],
        example_dag]"
    by (simp add: example_dag_def get_expr_list_def es_sort_def es_include.simps Let_def)
  from expression_sorter_topological[OF inj] have
    "set (get_expr_list example_dag) = es_nodes example_dag
     \<and> distinct (map addr_of (get_expr_list example_dag))
     \<and> last (get_expr_list example_dag) = example_dag"
    by blast
  with inj l show ?thesis
    by blast
qed

section \<open>Properties of the order of the functions\<close>

text \<open>
  The operands the function sorter includes from a node and the nodes it reaches from an
  expression: the arguments of a call of a Halide function are not visited. A function is
  reachable when a call reached from the output expression, or from a stage of a reachable
  function, names it.
\<close>

fun fs_children :: "expr \<Rightarrow> expr list" where
  "fs_children (Call p name ct fn args) = (if ct = Halide then [] else args)"
| "fs_children (Cast p t v) = [v]"
| "fs_children (Bin p f a b) = [a, b]"
| "fs_children (NotOp p a) = [a]"
| "fs_children (Select p c t f) = [c, t, f]"
| "fs_children (LetIn p name v b) = [v, b]"
| "fs_children e = []"

fun fs_nodes :: "expr \<Rightarrow> expr set" where
  "fs_nodes (Call p name ct fn args) =
     insert (Call p name ct fn args) (if ct = Halide then {} else (\<Union>a\<in>set args. fs_nodes a))"
| "fs_nodes (Cast p t v) = insert (Cast p t v) (fs_nodes v)"
| "fs_nodes (Bin p f a b) = insert (Bin p f a b) (fs_nodes a \<union> fs_nodes b)"
| "fs_nodes (NotOp p a) = insert (NotOp p a) (fs_nodes a)"
| "fs_nodes (Select p c t f) = insert (Select p c t f) (fs_nodes c \<union> fs_nodes t \<union> fs_nodes f)"
| "fs_nodes (LetIn p name v b) = insert (LetIn p name v b) (fs_nodes v \<union> fs_nodes b)"
| "fs_nodes e = {e}"

definition stages :: "func \<Rightarrow> expr set" where
  "stages f = insert (func_value f) (set (func_updates f))"

inductive_set reachable :: "fenv \<Rightarrow> expr \<Rightarrow> func set" for env :: fenv and e0 :: expr where
  direct: "Call p name Halide fn args \<in> fs_nodes e0 \<Longrightarrow> lookup_func env fn = Some f
             \<Longrightarrow> f \<in> reachable env e0"
| step: "g \<in> reachable env e0 \<Longrightarrow> e \<in> stages g \<Longrightarrow> Call p name Halide fn args \<in> fs_nodes e
             \<Longrightarrow> lookup_func env fn = Some f \<Longrightarrow> f \<in> reachable env e0"

text \<open>The run ends when the fuel covers the functions not yet traversed.\<close>

definition good :: "function_sorter result \<Rightarrow> function_sorter \<Rightarrow> bool" where
  "good r s = (\<exists>x. r = Some x \<and> (\<forall>s'. x = Inr s' \<longrightarrow> traversed_functions s \<subseteq> traversed_functions s'))"

definition need :: "fenv \<Rightarrow> function_sorter \<Rightarrow> nat" where
  "need env s = card (func_name ` set env - traversed_functions s)"

lemma good_ok [simp]: "good (ok s) s"
  by (simp add: good_def ok_def)

lemma good_fail [simp]: "good (fail e) s"
  by (simp add: good_def fail_def)

lemma need_mono: "traversed_functions s \<subseteq> traversed_functions s' \<Longrightarrow> need env s' \<le> need env s"
  unfolding need_def by (intro card_mono) auto

lemma good_bind:
  assumes "good m s"
    and "\<And>s1. m = Some (Inr s1) \<Longrightarrow> good (k s1) s1"
  shows "good (bind_r m k) s"
proof -
  from assms(1) obtain x where x: "m = Some x"
    and mono: "\<forall>s'. x = Inr s' \<longrightarrow> traversed_functions s \<subseteq> traversed_functions s'"
    by (auto simp: good_def)
  show ?thesis
  proof (cases x)
    case (Inl e)
    with x show ?thesis by (simp add: bind_r_def good_def)
  next
    case (Inr s1)
    with x assms(2) have "good (k s1) s1" by simp
    with x Inr mono show ?thesis
      by (auto simp: bind_r_def good_def)
  qed
qed

lemma good_bind_need:
  assumes "good m s"
    and "\<And>s1. need env s1 \<le> fuel \<Longrightarrow> good (k s1) s1"
    and "need env s \<le> fuel"
  shows "good (bind_r m k) s"
proof (rule good_bind[OF assms(1)])
  fix s1 assume "m = Some (Inr s1)"
  with assms(1) have "traversed_functions s \<subseteq> traversed_functions s1"
    by (auto simp: good_def)
  from need_mono[OF this, of env] assms(3) have "need env s1 \<le> fuel" by simp
  then show "good (k s1) s1" by (rule assms(2))
qed

lemma good_visited [simp]:
  "good r (s\<lparr>fs_visited := V\<rparr>) = good r s"
  by (simp add: good_def)

lemma need_visited [simp]: "need env (s\<lparr>fs_visited := V\<rparr>) = need env s"
  by (simp add: need_def)

lemma fs_total:
  "need env s \<le> fuel \<Longrightarrow> good (fs_include env fuel e s) s"
  "need env s \<le> fuel \<Longrightarrow> good (fs_accept env fuel e' s) s"
  "need env s \<le> fuel \<Longrightarrow> good (fs_include_args env fuel es s) s"
  "need env s \<le> fuel \<Longrightarrow> good (fs_stages env fuel f update_id s) s"
  "need env s \<le> Suc fuel \<Longrightarrow> func_name f' \<in> func_name ` set env \<Longrightarrow>
     func_name f' \<notin> traversed_functions s \<Longrightarrow> good (fs_sort_func env fuel f' s) s"
proof (induction env fuel e s and env fuel e' s and env fuel es s and env fuel f update_id s
         and env fuel f' s
       rule: fs_include_fs_accept_fs_include_args_fs_stages_fs_sort_func.induct)
  case (1 env fuel e s)
  then show ?case
    by (subst fs_include.simps) auto
next
  case (2 env fuel p name ct fn args s)
  show ?case
  proof (cases "ct = Halide")
    case False
    with 2 show ?thesis by simp
  next
    case True
    show ?thesis
    proof (cases "lookup_func env fn")
      case None
      with True show ?thesis by simp
    next
      case (Some func)
      then have nm: "func_name func \<in> func_name ` set env"
        by (auto simp: lookup_func_def find_Some_iff split: option.splits)
      show ?thesis
      proof (cases "func_name func \<in> traversed_functions s")
        case True
        with \<open>ct = Halide\<close> Some show ?thesis by simp
      next
        case False
        have "need env s > 0"
          unfolding need_def using nm False
          by (metis DiffI List.finite_set card_gt_0_iff empty_iff finite_Diff finite_imageI)
        with "2.prems" obtain fuel' where fuel: "fuel = Suc fuel'"
          by (cases fuel) auto
        from "2.IH"(1)[OF True Some False fuel] "2.prems" nm False fuel
        have "good (fs_sort_func env fuel' func s) s" by simp
        with True Some False fuel show ?thesis by simp
      qed
    qed
  qed
next
  case (4 env fuel p f a b s)
  show ?case
    using "4.prems"
    by (auto intro!: good_bind_need[where env = env and fuel = fuel] "4.IH")
next
  case (6 env fuel p c t f s)
  show ?case
    using "6.prems"
    by (auto intro!: good_bind_need[where env = env and fuel = fuel] "6.IH")
next
  case (7 env fuel p name v b s)
  show ?case
    using "7.prems"
    by (auto intro!: good_bind_need[where env = env and fuel = fuel] "7.IH")
next
  case (10 env fuel a as s)
  show ?case
    using "10.prems"
    by (auto intro!: good_bind_need[where env = env and fuel = fuel] "10.IH")
next
  case (11 env fuel f update_id s)
  show ?case
    using "11.prems"
    by (subst fs_stages.simps) (auto intro!: good_bind_need[where env = env and fuel = fuel] "11.IH")
next
  case (12 env fuel f s)
  let ?s1 = "s\<lparr>traversed_functions := insert (func_name f) (traversed_functions s),
               fs_functions := fs_functions s @ [f]\<rparr>"
  have "need env ?s1 < need env s"
    unfolding need_def using "12.prems"(2,3)
    by (intro psubset_card_mono) auto
  with "12.prems"(1) have "need env ?s1 \<le> fuel" by simp
  from "12.IH"[OF this] show ?case
    by (auto simp: good_def)
qed auto


text \<open>
  The invariant of the walk. A node is done when its operands are visited and, for a call
  of a Halide function, the function is traversed. Every visited node of the universe \<open>U\<close>
  is done, but for the nodes being visited (the addresses \<open>G\<close>); the stages of every listed
  function are done, but for the functions being sorted (\<open>GF\<close>).
\<close>

definition node_done :: "fenv \<Rightarrow> expr \<Rightarrow> function_sorter \<Rightarrow> bool" where
  "node_done env n s =
     ((\<forall>c\<in>set (fs_children n). addr_of c \<in> fs_visited s)
      \<and> (\<forall>p name fn args f. n = Call p name Halide fn args \<longrightarrow> lookup_func env fn = Some f
            \<longrightarrow> func_name f \<in> traversed_functions s))"

definition fs_inv ::
  "fenv \<Rightarrow> expr set \<Rightarrow> func set \<Rightarrow> addr set \<Rightarrow> func set \<Rightarrow> function_sorter \<Rightarrow> bool" where
  "fs_inv env U R G GF s =
     (set (fs_functions s) \<subseteq> R
      \<and> traversed_functions s = func_name ` set (fs_functions s)
      \<and> distinct (map func_name (fs_functions s))
      \<and> (\<forall>n\<in>U. addr_of n \<in> fs_visited s \<longrightarrow> addr_of n \<notin> G \<longrightarrow> node_done env n s)
      \<and> (\<forall>f\<in>set (fs_functions s). f \<notin> GF \<longrightarrow> (\<forall>e\<in>stages f. node_done env e s)))"

definition fs_mono :: "function_sorter \<Rightarrow> function_sorter \<Rightarrow> bool" where
  "fs_mono s s' =
     (fs_visited s \<subseteq> fs_visited s'
      \<and> traversed_functions s \<subseteq> traversed_functions s'
      \<and> (\<exists>new. fs_functions s' = fs_functions s @ new))"

lemma fs_mono_refl [simp]: "fs_mono s s"
  by (simp add: fs_mono_def)

lemma fs_mono_trans: "fs_mono s s1 \<Longrightarrow> fs_mono s1 s2 \<Longrightarrow> fs_mono s s2"
  by (auto simp: fs_mono_def)

lemma fs_mono_visited: "fs_mono s s' \<Longrightarrow> a \<in> fs_visited s \<Longrightarrow> a \<in> fs_visited s'"
  by (auto simp: fs_mono_def)

lemma node_done_mono: "fs_mono s s' \<Longrightarrow> node_done env n s \<Longrightarrow> node_done env n s'"
  unfolding node_done_def fs_mono_def by blast

lemma bind_r_Inr:
  "bind_r m k = Some (Inr s') \<longleftrightarrow> (\<exists>s1. m = Some (Inr s1) \<and> k s1 = Some (Inr s'))"
  by (auto simp: bind_r_def split: option.splits sum.splits)

lemma ok_Inr [simp]: "ok s = Some (Inr s') \<longleftrightarrow> s' = s"
  by (auto simp: ok_def)

lemma fail_Inr [simp]: "fail e \<noteq> Some (Inr s')"
  by (simp add: fail_def)

lemma fs_nodes_unfold: "fs_nodes e = insert e (\<Union>c\<in>set (fs_children e). fs_nodes c)"
  by (cases e) auto

lemma fs_nodes_self [simp]: "e \<in> fs_nodes e"
  by (subst fs_nodes_unfold) simp

lemma fs_nodes_child: "c \<in> set (fs_children e) \<Longrightarrow> fs_nodes c \<subseteq> fs_nodes e"
  by (subst (2) fs_nodes_unfold) auto

text \<open>Entering a node: it becomes grey.\<close>

lemma fs_inv_enter:
  assumes "fs_inv env U R G GF s"
  shows "fs_inv env U R (insert a G) GF (s\<lparr>fs_visited := insert a (fs_visited s)\<rparr>)"
proof -
  have m: "fs_mono s (s\<lparr>fs_visited := insert a (fs_visited s)\<rparr>)"
    by (auto simp: fs_mono_def)
  show ?thesis
    using assms node_done_mono[OF m]
    by (auto simp: fs_inv_def)
qed

text \<open>Leaving a node that is done: it becomes black.\<close>

lemma fs_inv_leave:
  assumes inj: "inj_on addr_of U"
    and inv: "fs_inv env U R (insert (addr_of e) G) GF s"
    and eU: "e \<in> U"
    and don: "node_done env e s"
  shows "fs_inv env U R G GF s"
proof -
  have "node_done env n s" if "n \<in> U" "addr_of n \<in> fs_visited s" "addr_of n \<notin> G" for n
  proof (cases "addr_of n = addr_of e")
    case True
    with inj that(1) eU have "n = e" by (auto dest: inj_onD)
    with don show ?thesis by simp
  next
    case False
    with inv that show ?thesis by (auto simp: fs_inv_def)
  qed
  with inv show ?thesis
    by (auto simp: fs_inv_def)
qed


lemma stage_expr_in_stages:
  "-1 \<le> k \<Longrightarrow> k < num_update_definitions f \<Longrightarrow> stage_expr f k \<in> stages f"
  by (auto simp: stage_expr_def stages_def update_value_def num_update_definitions_def)

lemma stages_are_stage_exprs:
  assumes "e \<in> stages f"
  shows "\<exists>k. -1 \<le> k \<and> k \<le> num_update_definitions f - 1 \<and> stage_expr f k = e"
proof (cases "e = func_value f")
  case True
  then show ?thesis
    by (intro exI[of _ "-1"]) (simp add: stage_expr_def num_update_definitions_def)
next
  case False
  with assms obtain i where "i < length (func_updates f)" "func_updates f ! i = e"
    by (auto simp: stages_def in_set_conv_nth)
  then show ?thesis
    by (intro exI[of _ "int i"])
       (simp add: stage_expr_def update_value_def num_update_definitions_def)
qed

lemma fs_traversal:
  assumes "inj_on addr_of U"
    and "\<And>p name fn args f. Call p name Halide fn args \<in> U \<Longrightarrow> lookup_func env fn = Some f \<Longrightarrow> f \<in> R"
    and "\<And>f e. f \<in> R \<Longrightarrow> e \<in> stages f \<Longrightarrow> fs_nodes e \<subseteq> U"
  shows "fs_include env fuel e s = Some (Inr s') \<Longrightarrow> fs_inv env U R G GF s \<Longrightarrow> fs_nodes e \<subseteq> U \<Longrightarrow>
           fs_inv env U R G GF s' \<and> fs_mono s s' \<and> addr_of e \<in> fs_visited s'"
    and "fs_accept env fuel e1 s = Some (Inr s') \<Longrightarrow> fs_inv env U R G GF s \<Longrightarrow> fs_nodes e1 \<subseteq> U \<Longrightarrow>
           fs_inv env U R G GF s' \<and> fs_mono s s' \<and> node_done env e1 s'"
    and "fs_include_args env fuel es s = Some (Inr s') \<Longrightarrow> fs_inv env U R G GF s \<Longrightarrow>
           (\<forall>c\<in>set es. fs_nodes c \<subseteq> U) \<Longrightarrow>
           fs_inv env U R G GF s' \<and> fs_mono s s' \<and> (\<forall>c\<in>set es. addr_of c \<in> fs_visited s')"
    and "fs_stages env fuel f update_id s = Some (Inr s') \<Longrightarrow> fs_inv env U R G GF s \<Longrightarrow> f \<in> R \<Longrightarrow>
           update_id < num_update_definitions f \<Longrightarrow>
           fs_inv env U R G GF s' \<and> fs_mono s s'
           \<and> (\<forall>k. -1 \<le> k \<and> k \<le> update_id \<longrightarrow> node_done env (stage_expr f k) s')"
    and "fs_sort_func env fuel f1 s = Some (Inr s') \<Longrightarrow> fs_inv env U R G GF s \<Longrightarrow> f1 \<in> R \<Longrightarrow>
           func_name f1 \<notin> traversed_functions s \<Longrightarrow>
           fs_inv env U R G GF s' \<and> fs_mono s s' \<and> func_name f1 \<in> traversed_functions s'"
  using assms
proof (induction env fuel e s and env fuel e1 s and env fuel es s and env fuel f update_id s
         and env fuel f1 s
       arbitrary: s' G GF and s' G GF and s' G GF and s' G GF and s' G GF
       rule: fs_include_fs_accept_fs_include_args_fs_stages_fs_sort_func.induct)
  case (1 env fuel e s)
  note inj = "1.prems"(4) and calls = "1.prems"(5) and stg = "1.prems"(6)
  show ?case
  proof (cases "addr_of e \<in> fs_visited s")
    case True
    with "1.prems"(1) have "s' = s"
      by (subst (asm) fs_include.simps) simp
    with True "1.prems"(2) show ?thesis by simp
  next
    case False
    let ?s1 = "s\<lparr>fs_visited := insert (addr_of e) (fs_visited s)\<rparr>"
    from False "1.prems"(1) have acc: "fs_accept env fuel e ?s1 = Some (Inr s')"
      by (subst (asm) fs_include.simps) simp
    have inv1: "fs_inv env U R (insert (addr_of e) G) GF ?s1"
      using "1.prems"(2) by (rule fs_inv_enter)
    from "1.IH"[OF False acc inv1 "1.prems"(3) inj calls stg] have
      inv2: "fs_inv env U R (insert (addr_of e) G) GF s'"
      and mono: "fs_mono ?s1 s'"
      and don: "node_done env e s'"
      by auto
    have eU: "e \<in> U" using "1.prems"(3) by auto
    have "fs_inv env U R G GF s'"
      using inj inv2 eU don by (rule fs_inv_leave)
    moreover have "fs_mono s s'"
      using mono by (auto simp: fs_mono_def)
    moreover have "addr_of e \<in> fs_visited s'"
      using mono by (auto simp: fs_mono_def)
    ultimately show ?thesis by simp
  qed
next
  case (2 env fuel p name ct fn args s)
  note inj = "2.prems"(4) and calls = "2.prems"(5) and stg = "2.prems"(6)
  show ?case
  proof (cases "ct = Halide")
    case False
    with "2.prems"(1) have a: "fs_include_args env fuel args s = Some (Inr s')" by simp
    have sub: "\<forall>c\<in>set args. fs_nodes c \<subseteq> U"
      using "2.prems"(3) False by auto
    from "2.IH"(2)[OF False a "2.prems"(2) sub inj calls stg] False show ?thesis
      by (auto simp: node_done_def)
  next
    case True
    with "2.prems"(1) obtain func where lk: "lookup_func env fn = Some func"
      by (auto split: option.splits)
    have fR: "func \<in> R"
      using calls[OF _ lk] "2.prems"(3) True by auto
    show ?thesis
    proof (cases "func_name func \<in> traversed_functions s")
      case in_T: True
      with True lk "2.prems"(1) have "s' = s" by simp
      with in_T True lk "2.prems"(2) show ?thesis
        by (auto simp: node_done_def)
    next
      case False
      with True lk "2.prems"(1) obtain fuel' where fuel: "fuel = Suc fuel'"
        and sf: "fs_sort_func env fuel' func s = Some (Inr s')"
        by (cases fuel) auto
      from "2.IH"(1)[OF True lk False fuel sf "2.prems"(2) fR False inj calls stg] True lk
      show ?thesis
        by (auto simp: node_done_def)
    qed
  qed
next
  case (3 env fuel p t v s)
  from "3.IH"[OF _ "3.prems"(2)] "3.prems" show ?case
    by (auto simp: node_done_def)
next
  case (4 env fuel p f a b s)
  note inj = "4.prems"(4) and calls = "4.prems"(5) and stg = "4.prems"(6)
  from "4.prems"(1) obtain s1 where
    a: "fs_include env fuel a s = Some (Inr s1)" and b: "fs_include env fuel b s1 = Some (Inr s')"
    by (auto simp: bind_r_Inr)
  from "4.IH"(1)[OF a "4.prems"(2) _ inj calls stg] "4.prems"(3) have
    i1: "fs_inv env U R G GF s1" "fs_mono s s1" "addr_of a \<in> fs_visited s1" by auto
  from "4.IH"(2)[OF b i1(1) _ inj calls stg] "4.prems"(3) have
    i2: "fs_inv env U R G GF s'" "fs_mono s1 s'" "addr_of b \<in> fs_visited s'" by auto
  from i1 i2 show ?case
    by (auto simp: node_done_def intro: fs_mono_trans fs_mono_visited)
next
  case (5 env fuel p a s)
  from "5.IH"[OF _ "5.prems"(2)] "5.prems" show ?case
    by (auto simp: node_done_def)
next
  case (6 env fuel p c t f s)
  note inj = "6.prems"(4) and calls = "6.prems"(5) and stg = "6.prems"(6)
  from "6.prems"(1) obtain s1 s2 where
    c: "fs_include env fuel c s = Some (Inr s1)" and t: "fs_include env fuel t s1 = Some (Inr s2)"
    and f: "fs_include env fuel f s2 = Some (Inr s')"
    by (auto simp: bind_r_Inr)
  from "6.IH"(1)[OF c "6.prems"(2) _ inj calls stg] "6.prems"(3) have
    i1: "fs_inv env U R G GF s1" "fs_mono s s1" "addr_of c \<in> fs_visited s1" by auto
  from "6.IH"(2)[OF t i1(1) _ inj calls stg] "6.prems"(3) have
    i2: "fs_inv env U R G GF s2" "fs_mono s1 s2" "addr_of t \<in> fs_visited s2" by auto
  from "6.IH"(3)[OF f i2(1) _ inj calls stg] "6.prems"(3) have
    i3: "fs_inv env U R G GF s'" "fs_mono s2 s'" "addr_of f \<in> fs_visited s'" by auto
  from i1 i2 i3 show ?case
    by (auto simp: node_done_def intro: fs_mono_trans fs_mono_visited)
next
  case (7 env fuel p name v b s)
  note inj = "7.prems"(4) and calls = "7.prems"(5) and stg = "7.prems"(6)
  from "7.prems"(1) obtain s1 where
    a: "fs_include env fuel v s = Some (Inr s1)" and b: "fs_include env fuel b s1 = Some (Inr s')"
    by (auto simp: bind_r_Inr)
  from "7.IH"(1)[OF a "7.prems"(2) _ inj calls stg] "7.prems"(3) have
    i1: "fs_inv env U R G GF s1" "fs_mono s s1" "addr_of v \<in> fs_visited s1" by auto
  from "7.IH"(2)[OF b i1(1) _ inj calls stg] "7.prems"(3) have
    i2: "fs_inv env U R G GF s'" "fs_mono s1 s'" "addr_of b \<in> fs_visited s'" by auto
  from i1 i2 show ?case
    by (auto simp: node_done_def intro: fs_mono_trans fs_mono_visited)
next
  case (10 env fuel a as s)
  note inj = "10.prems"(4) and calls = "10.prems"(5) and stg = "10.prems"(6)
  from "10.prems"(1) obtain s1 where
    a: "fs_include env fuel a s = Some (Inr s1)"
    and b: "fs_include_args env fuel as s1 = Some (Inr s')"
    by (auto simp: bind_r_Inr)
  from "10.IH"(1)[OF a "10.prems"(2) _ inj calls stg] "10.prems"(3) have
    i1: "fs_inv env U R G GF s1" "fs_mono s s1" "addr_of a \<in> fs_visited s1" by auto
  from "10.IH"(2)[OF b i1(1) _ inj calls stg] "10.prems"(3) have
    i2: "fs_inv env U R G GF s'" "fs_mono s1 s'" "\<forall>c\<in>set as. addr_of c \<in> fs_visited s'" by auto
  from i1 i2 show ?case
    by (auto intro: fs_mono_trans fs_mono_visited)
next
  case (11 env fuel f update_id s)
  note inj = "11.prems"(5) and calls = "11.prems"(6) and stg = "11.prems"(7)
  show ?case
  proof (cases "update_id \<ge> -1")
    case False
    with "11.prems"(1) have "s' = s"
      by (subst (asm) fs_stages.simps) simp
    with False "11.prems"(2) show ?thesis by auto
  next
    case True
    with "11.prems"(1) obtain s1 where
      a: "fs_accept env fuel (stage_expr f update_id) s = Some (Inr s1)"
      and b: "fs_stages env fuel f (update_id - 1) s1 = Some (Inr s')"
      by (subst (asm) fs_stages.simps) (auto simp: bind_r_Inr)
    have sU: "fs_nodes (stage_expr f update_id) \<subseteq> U"
      using stg[OF "11.prems"(3) stage_expr_in_stages[OF True "11.prems"(4)]] .
    from "11.IH"(1)[OF True a "11.prems"(2) sU inj calls stg] have
      i1: "fs_inv env U R G GF s1" "fs_mono s s1" "node_done env (stage_expr f update_id) s1"
      by auto
    from "11.IH"(2)[OF True b i1(1) "11.prems"(3) _ inj calls stg] "11.prems"(4) have
      i2: "fs_inv env U R G GF s'" "fs_mono s1 s'"
          "\<forall>k. -1 \<le> k \<and> k \<le> update_id - 1 \<longrightarrow> node_done env (stage_expr f k) s'"
      by auto
    have "node_done env (stage_expr f k) s'" if "-1 \<le> k \<and> k \<le> update_id" for k
    proof (cases "k = update_id")
      case True
      with i1(3) i2(2) show ?thesis by (auto intro: node_done_mono)
    next
      case False
      with that i2(3) show ?thesis by auto
    qed
    with i1 i2 show ?thesis
      by (auto intro: fs_mono_trans)
  qed
next
  case (12 env fuel f s)
  note inj = "12.prems"(5) and calls = "12.prems"(6) and stg = "12.prems"(7)
  let ?s1 = "s\<lparr>traversed_functions := insert (func_name f) (traversed_functions s),
               fs_functions := fs_functions s @ [f]\<rparr>"
  have m1: "fs_mono s ?s1"
    by (auto simp: fs_mono_def)
  have inv1: "fs_inv env U R G (insert f GF) ?s1"
    using "12.prems"(2,3,4) node_done_mono[OF m1]
    by (auto simp: fs_inv_def)
  from "12.prems"(1) have st: "fs_stages env fuel f (num_update_definitions f - 1) ?s1 = Some (Inr s')"
    by simp
  from "12.IH"[OF st inv1 "12.prems"(3) _ inj calls stg] have
    i2: "fs_inv env U R G (insert f GF) s'" "fs_mono ?s1 s'"
        "\<forall>k. -1 \<le> k \<and> k \<le> num_update_definitions f - 1 \<longrightarrow> node_done env (stage_expr f k) s'"
    by auto
  have all: "\<forall>e\<in>stages f. node_done env e s'"
    using i2(3) stages_are_stage_exprs[of _ f] by blast
  have "fs_inv env U R G GF s'"
    using i2(1) all by (auto simp: fs_inv_def)
  moreover have "fs_mono s s'"
    using m1 i2(2) by (rule fs_mono_trans)
  moreover have "func_name f \<in> traversed_functions s'"
    using i2(2) by (auto simp: fs_mono_def)
  ultimately show ?case by simp
qed (auto simp: node_done_def)


definition fs_universe :: "fenv \<Rightarrow> expr \<Rightarrow> expr set" where
  "fs_universe env e0 = fs_nodes e0 \<union> (\<Union>g\<in>reachable env e0. \<Union>e\<in>stages g. fs_nodes e)"

fun fold_r :: "('a \<Rightarrow> 's \<Rightarrow> 's result) \<Rightarrow> 'a list \<Rightarrow> 's \<Rightarrow> 's result" where
  "fold_r f [] s = ok s"
| "fold_r f (x # xs) s = bind_r (f x s) (fold_r f xs)"

lemma fs_children_size: "c \<in> set (fs_children e) \<Longrightarrow> size c < size e"
  by (cases e) (auto split: if_splits dest: size_list_estimation'[where f = size and y = "size c"] simp: less_Suc_eq_le)

lemma all_nodes_done:
  assumes inv: "fs_inv env U R {} {} s"
  shows "node_done env e s \<Longrightarrow> fs_nodes e \<subseteq> U \<Longrightarrow> n \<in> fs_nodes e \<Longrightarrow> node_done env n s"
proof (induction e rule: measure_induct_rule[of size])
  case (less e)
  from less.prems(3) have "n = e \<or> (\<exists>c\<in>set (fs_children e). n \<in> fs_nodes c)"
    by (subst (asm) fs_nodes_unfold) auto
  then show ?case
  proof
    assume "n = e"
    with less.prems(1) show ?thesis by simp
  next
    assume "\<exists>c\<in>set (fs_children e). n \<in> fs_nodes c"
    then obtain c where c: "c \<in> set (fs_children e)" "n \<in> fs_nodes c" by blast
    have cU: "fs_nodes c \<subseteq> U"
      using fs_nodes_child[OF c(1)] less.prems(2) by blast
    then have "c \<in> U" by auto
    moreover have "addr_of c \<in> fs_visited s"
      using less.prems(1) c(1) by (auto simp: node_done_def)
    ultimately have "node_done env c s"
      using inv by (auto simp: fs_inv_def)
    from less.IH[OF fs_children_size[OF c(1)] this cU c(2)] show ?thesis .
  qed
qed

lemma reachable_lookup:
  "f \<in> reachable env e0 \<Longrightarrow> find (\<lambda>g. func_name g = func_name f) env = Some f"
  by (induction rule: reachable.induct)
     (auto simp: lookup_func_def find_Some_iff split: option.splits)

lemma reachable_in_env: "f \<in> reachable env e0 \<Longrightarrow> f \<in> set env"
  by (drule reachable_lookup) (auto simp: find_Some_iff)

lemma universe_calls:
  assumes "Call p name Halide fn args \<in> fs_universe env e0" and "lookup_func env fn = Some f"
  shows "f \<in> reachable env e0"
proof (cases "Call p name Halide fn args \<in> fs_nodes e0")
  case True
  then show ?thesis using assms(2) by (rule reachable.direct)
next
  case False
  with assms(1) obtain g e where "g \<in> reachable env e0" "e \<in> stages g"
    "Call p name Halide fn args \<in> fs_nodes e"
    unfolding fs_universe_def by blast
  then show ?thesis using assms(2) by (rule reachable.step)
qed

lemma universe_stages:
  "f \<in> reachable env e0 \<Longrightarrow> e \<in> stages f \<Longrightarrow> fs_nodes e \<subseteq> fs_universe env e0"
  by (auto simp: fs_universe_def)

lemma fs_sort_invariant:
  assumes inj: "inj_on addr_of (fs_universe env e0)"
    and run: "fs_sort env fuel e0 fs_init = Some (Inr s)"
  shows "fs_inv env (fs_universe env e0) (reachable env e0) {} {} s \<and> node_done env e0 s"
proof -
  let ?s0 = "fs_init\<lparr>fs_visited := {}\<rparr>"
  have inv0: "fs_inv env (fs_universe env e0) (reachable env e0) {} {} ?s0"
    by (simp add: fs_inv_def fs_init_def)
  have sub: "fs_nodes e0 \<subseteq> fs_universe env e0"
    by (simp add: fs_universe_def)
  from run have acc: "fs_accept env fuel e0 ?s0 = Some (Inr s)"
    by (simp add: fs_sort_def)
  from fs_traversal(2)[OF inj universe_calls universe_stages acc inv0 sub]
  show ?thesis by simp
qed

lemma fs_sort_complete:
  assumes inj: "inj_on addr_of (fs_universe env e0)"
    and run: "fs_sort env fuel e0 fs_init = Some (Inr s)"
  shows "f \<in> reachable env e0 \<Longrightarrow> f \<in> set (fs_functions s)"
proof -
  let ?U = "fs_universe env e0"
  let ?R = "reachable env e0"
  from fs_sort_invariant[OF inj run] have inv: "fs_inv env ?U ?R {} {} s" and d0: "node_done env e0 s"
    by auto
  have found: "f \<in> set (fs_functions s)"
    if "f \<in> ?R" "func_name f \<in> traversed_functions s" for f
  proof -
    from that(2) inv obtain f' where f': "f' \<in> set (fs_functions s)" "func_name f' = func_name f"
      by (auto simp: fs_inv_def)
    with inv have "f' \<in> ?R" by (auto simp: fs_inv_def)
    from reachable_lookup[OF this] reachable_lookup[OF that(1)] f'(2) have "f' = f"
      by (metis option.inject)
    with f'(1) show ?thesis by simp
  qed
  show "f \<in> ?R \<Longrightarrow> f \<in> set (fs_functions s)"
  proof (induction rule: reachable.induct)
    case (direct p name fn args f)
    have "node_done env (Call p name Halide fn args) s"
      using all_nodes_done[OF inv d0 _ direct(1)] by (simp add: fs_universe_def)
    with direct(2) have "func_name f \<in> traversed_functions s"
      by (simp add: node_done_def)
    with reachable.direct[OF direct] show ?case by (rule found)
  next
    case (step g e p name fn args f)
    have d: "node_done env e s"
      using inv step(5) step(2) by (auto simp: fs_inv_def)
    have "node_done env (Call p name Halide fn args) s"
      using all_nodes_done[OF inv d universe_stages[OF step(1,2)] step(3)] .
    with step(4) have "func_name f \<in> traversed_functions s"
      by (simp add: node_done_def)
    with reachable.step[OF step(1,2,3,4)] show ?case by (rule found)
  qed
qed

lemma bind_r_ok [simp]: "bind_r m ok = m"
  by (auto simp: bind_r_def ok_def split: option.splits sum.splits)

lemma fold_r_Nil_fun [simp]: "fold_r f [] = ok"
  by (rule ext) simp

lemma fs_stages_fold:
  "n \<le> length (func_updates f) \<Longrightarrow>
     fs_stages env fuel f (int n - 1) s
       = fold_r (fs_accept env fuel) (rev (take n (func_updates f)) @ [func_value f]) s"
proof (induction n arbitrary: s)
  case 0
  have "fs_stages env fuel f (- 2) = ok"
    by (rule ext) (subst fs_stages.simps, simp)
  then show ?case
    by (subst fs_stages.simps) (simp add: stage_expr_def)
next
  case (Suc n)
  then have n: "n < length (func_updates f)" by simp
  have "fs_stages env fuel f (int n - 1) = fold_r (fs_accept env fuel) (rev (take n (func_updates f)) @ [func_value f])"
    using Suc.IH n by (intro ext) simp
  then show ?case
    using n
    by (subst fs_stages.simps)
       (simp add: stage_expr_def update_value_def take_Suc_conv_app_nth)
qed

lemma fs_sort_func_fold:
  "fs_sort_func env fuel f s
     = fold_r (fs_accept env fuel) (rev (func_updates f) @ [func_value f])
         (s\<lparr>traversed_functions := insert (func_name f) (traversed_functions s),
            fs_functions := fs_functions s @ [f]\<rparr>)"
  using fs_stages_fold[of "length (func_updates f)" f env fuel]
  by (simp add: num_update_definitions_def)

lemma fs_sort_total:
  assumes "length env \<le> fuel"
  shows "\<exists>r. fs_sort env fuel e0 fs_init = Some r"
proof -
  have "need env (fs_init\<lparr>fs_visited := {}\<rparr>) \<le> length env"
    unfolding need_def
    by (rule order_trans[OF card_mono[of "func_name ` set env"]])
       (auto intro: order_trans[OF card_image_le] card_length)
  with assms have "need env (fs_init\<lparr>fs_visited := {}\<rparr>) \<le> fuel" by simp
  from fs_total(2)[OF this, of e0] show ?thesis
    by (auto simp: good_def fs_sort_def)
qed

text \<open>
  C7, amended. When an address stands for one node, the sorter returns once the fuel covers
  the functions of the pipeline, and its list holds exactly the reachable functions, none
  twice. The call of a function that is traversed leaves the sorter as it is. Sorting a
  function lists it and accepts its stages from the last update down to the initialization.
\<close>

theorem function_sorter_order:
  assumes "inj_on addr_of (fs_universe env e0)"
  shows "(length env \<le> fuel \<longrightarrow> (\<exists>r. fs_sort env fuel e0 fs_init = Some r))
         \<and> (fs_sort env fuel e0 fs_init = Some (Inr s) \<longrightarrow>
               set (fs_functions s) = reachable env e0 \<and> distinct (map func_name (fs_functions s)))
         \<and> (lookup_func env fn = Some f \<and> func_name f \<in> traversed_functions s1 \<longrightarrow>
               fs_accept env fuel (Call p name Halide fn args) s1 = ok s1)
         \<and> fs_sort_func env fuel f s1
             = fold_r (fs_accept env fuel) (rev (func_updates f) @ [func_value f])
                 (s1\<lparr>traversed_functions := insert (func_name f) (traversed_functions s1),
                     fs_functions := fs_functions s1 @ [f]\<rparr>)"
proof (intro conjI impI)
  assume "length env \<le> fuel"
  then show "\<exists>r. fs_sort env fuel e0 fs_init = Some r" by (rule fs_sort_total)
next
  assume run: "fs_sort env fuel e0 fs_init = Some (Inr s)"
  from fs_sort_invariant[OF assms run] have
    "set (fs_functions s) \<subseteq> reachable env e0" "distinct (map func_name (fs_functions s))"
    by (auto simp: fs_inv_def)
  with fs_sort_complete[OF assms run]
  show "set (fs_functions s) = reachable env e0" "distinct (map func_name (fs_functions s))"
    by auto
next
  assume "lookup_func env fn = Some f \<and> func_name f \<in> traversed_functions s1"
  then show "fs_accept env fuel (Call p name Halide fn args) s1 = ok s1" by simp
next
  show "fs_sort_func env fuel f s1
          = fold_r (fs_accept env fuel) (rev (func_updates f) @ [func_value f])
              (s1\<lparr>traversed_functions := insert (func_name f) (traversed_functions s1),
                  fs_functions := fs_functions s1 @ [f]\<rparr>)"
    by (rule fs_sort_func_fold)
qed


text \<open>
  The Halide functions called anywhere in an expression, the arguments of calls included:
  the functions "transitively reachable through call nodes" in the widest reading.
\<close>

lemma fs_universe_subset:
  "fs_universe env e0 \<subseteq> fs_nodes e0 \<union> (\<Union>g\<in>set env. \<Union>e\<in>stages g. fs_nodes e)"
  unfolding fs_universe_def using reachable_in_env by fast

fun called_functions :: "expr \<Rightarrow> string set"
  and called_functions_list :: "expr list \<Rightarrow> string set" where
  "called_functions (Call p name ct fn args) =
     (if ct = Halide then {name} else {}) \<union> called_functions_list args"
| "called_functions (Cast p t v) = called_functions v"
| "called_functions (Bin p f a b) = called_functions a \<union> called_functions b"
| "called_functions (NotOp p a) = called_functions a"
| "called_functions (Select p c t f) = called_functions c \<union> called_functions t \<union> called_functions f"
| "called_functions (LetIn p name v b) = called_functions v \<union> called_functions b"
| "called_functions e = {}"
| "called_functions_list [] = {}"
| "called_functions_list (a # as) = called_functions a \<union> called_functions_list as"

definition nested_f :: func where
  "nested_f = \<lparr>func_name = ''f'', func_args = [''x''], func_value = FloatImm 4 0, func_updates = []\<rparr>"

definition nested_g :: func where
  "nested_g = \<lparr>func_name = ''g'', func_args = [''x''], func_value = FloatImm 5 0, func_updates = []\<rparr>"

definition nested_call :: expr where
  "nested_call =
     Call 1 ''f'' Halide (Some ''f'') [Call 2 ''g'' Halide (Some ''g'') [Variable 3 ''x'' None]]"

text \<open>
  C7, as stated, fails: in \<open>f(g(x))\<close> the function \<open>g\<close> is called by the output expression,
  but the sorter returns from the call of \<open>f\<close> without visiting its arguments and lists \<open>f\<close>
  alone.
\<close>

theorem nested_call_counterexample:
  "''g'' \<in> called_functions nested_call
   \<and> lookup_func [nested_f, nested_g] (Some ''g'') = Some nested_g
   \<and> (case fs_sort [nested_f, nested_g] 2 nested_call fs_init of
         Some (Inr s) \<Rightarrow> fs_functions s = [nested_f]
       | _ \<Rightarrow> False)"
  by (simp add: nested_call_def nested_f_def nested_g_def lookup_func_def fs_sort_def fs_init_def
        fs_stages.simps num_update_definitions_def stage_expr_def bind_r_def ok_def)

text \<open>An instance: \<open>f\<close> calls itself and \<open>g\<close> from its update stage.\<close>

definition chain_f :: func where
  "chain_f = \<lparr>func_name = ''f'', func_args = [''x''], func_value = FloatImm 40 0,
               func_updates = [Bin 41 Add (Call 42 ''f'' Halide (Some ''f'') [Variable 43 ''x'' None])
                                          (Call 44 ''g'' Halide (Some ''g'') [Variable 45 ''x'' None])]\<rparr>"

definition chain_g :: func where
  "chain_g = \<lparr>func_name = ''g'', func_args = [''x''], func_value = FloatImm 50 1, func_updates = []\<rparr>"

definition chain_call :: expr where
  "chain_call = Call 1 ''f'' Halide (Some ''f'') [IntImm 2 0]"

theorem function_sorter_order_witness:
  "inj_on addr_of (fs_universe [chain_f, chain_g] chain_call)
   \<and> length [chain_f, chain_g] \<le> 2
   \<and> (\<exists>s. fs_sort [chain_f, chain_g] 2 chain_call fs_init = Some (Inr s)
          \<and> fs_functions s = [chain_f, chain_g]
          \<and> set (fs_functions s) = reachable [chain_f, chain_g] chain_call
          \<and> distinct (map func_name (fs_functions s)))"
proof -
  let ?env = "[chain_f, chain_g]"
  have "inj_on addr_of (fs_nodes chain_call \<union> (\<Union>g\<in>set ?env. \<Union>e\<in>stages g. fs_nodes e))"
    by (auto simp: chain_call_def chain_f_def chain_g_def stages_def)
  then have inj: "inj_on addr_of (fs_universe ?env chain_call)"
    by (rule inj_on_subset) (rule fs_universe_subset)
  have "\<exists>s. fs_sort ?env 2 chain_call fs_init = Some (Inr s) \<and> fs_functions s = ?env"
    by (simp add: chain_call_def chain_f_def chain_g_def lookup_func_def fs_sort_def fs_init_def
          fs_stages.simps fs_include.simps num_update_definitions_def stage_expr_def update_value_def
          bind_r_def ok_def eval_nat_numeral)
  then obtain s where s: "fs_sort ?env 2 chain_call fs_init = Some (Inr s)" "fs_functions s = ?env"
    by blast
  from function_sorter_order[OF inj, of 2 s] s(1) have
    "set (fs_functions s) = reachable ?env chain_call \<and> distinct (map func_name (fs_functions s))"
    by blast
  with inj s show ?thesis
    by auto
qed

section \<open>The bounds tests of the repository\<close>

text \<open>
  \<^verbatim>\<open>test_simple_bounds_inference_update\<close>: \<open>blur(x) = input(x)\<close>, \<open>blur(x) += input(x + 1)\<close>
  and the loss \<open>blur(r.x)\<close> over \<open>r = RDom(0, 2)\<close>. The test expects the bounds (0, 2) for
  both stages of \<open>blur\<close> and (0, 3) for \<open>input\<close>; the model gives bounds of these values
  (the simplifier of the example host is the identity, so the bounds are compared by value).
\<close>

definition test_input :: func where
  "test_input = \<lparr>func_name = ''input'', func_args = [''x''], func_value = FloatImm 60 0, func_updates = []\<rparr>"

definition test_blur :: func where
  "test_blur =
     \<lparr>func_name = ''blur'', func_args = [''x''],
      func_value = Call 70 ''input'' Halide (Some ''input'') [Variable 71 ''x'' None],
      func_updates =
        [Bin 72 Add (Call 73 ''blur'' Halide (Some ''blur'') [Variable 74 ''x'' None])
                    (Call 75 ''input'' Halide (Some ''input'')
                       [Bin 76 Add (Variable 77 ''x'' None) (IntImm 78 1)])]\<rparr>"

definition test_loss :: expr where
  "test_loss =
     Call 80 ''blur'' Halide (Some ''blur'')
       [Variable 81 ''r$x'' (Some [ReductionVariable ''r$x'' (IntImm 82 0) (IntImm 83 2)])]"

lemma test_simple_bounds_inference_update:
  "(case bi_inference example_host [test_input, test_blur] 2 test_loss of
      Some (Inr bi) \<Rightarrow>
        (case (get_func_bounds example_host bi (''blur'', 0),
               get_func_bounds example_host bi (''blur'', -1),
               get_func_bounds example_host bi (''input'', -1)) of
           (Some [b1], Some [b0], Some [i0]) \<Rightarrow>
             eval C V (rv_min b1) = 0 \<and> eval C V (rv_extent b1) = 2
             \<and> eval C V (rv_min b0) = 0 \<and> eval C V (rv_extent b0) = 2
             \<and> eval C V (rv_min i0) = 0 \<and> eval C V (rv_extent i0) = 3
         | _ \<Rightarrow> False)
    | _ \<Rightarrow> False)"
  by (simp add: example_pass_simps merge_bounds_def op_min_def op_max_def
        var_bounds_loop.simps test_input_def test_blur_def test_loss_def eval_nat_numeral)


text \<open>
  \<^verbatim>\<open>test_simple_bounds_inference\<close>: the two blurs of width 16 and height 32, the loss over
  \<open>RDom(0, 14, 0, 30)\<close>.
\<close>

definition t2_input :: func where
  "t2_input = \<lparr>func_name = ''input'', func_args = [''x'', ''y''], func_value = FloatImm 100 0,
                func_updates = []\<rparr>"

definition t2_blur_x :: func where
  "t2_blur_x =
     \<lparr>func_name = ''blur_x'', func_args = [''x'', ''y''],
      func_value =
        Bin 110 Add
          (Bin 111 Add
             (Call 112 ''input'' Halide (Some ''input'') [Variable 113 ''x'' None, Variable 114 ''y'' None])
             (Call 115 ''input'' Halide (Some ''input'')
                [Bin 116 Add (Variable 113 ''x'' None) (IntImm 117 1), Variable 114 ''y'' None]))
          (Call 118 ''input'' Halide (Some ''input'')
             [Bin 119 Add (Variable 113 ''x'' None) (IntImm 120 2), Variable 114 ''y'' None]),
      func_updates = []\<rparr>"

definition t2_blur_y :: func where
  "t2_blur_y =
     \<lparr>func_name = ''blur_y'', func_args = [''x'', ''y''],
      func_value =
        Bin 130 Add
          (Bin 131 Add
             (Call 132 ''blur_x'' Halide (Some ''blur_x'') [Variable 113 ''x'' None, Variable 114 ''y'' None])
             (Call 135 ''blur_x'' Halide (Some ''blur_x'')
                [Variable 113 ''x'' None, Bin 136 Add (Variable 114 ''y'' None) (IntImm 137 1)]))
          (Call 138 ''blur_x'' Halide (Some ''blur_x'')
             [Variable 113 ''x'' None, Bin 139 Add (Variable 114 ''y'' None) (IntImm 140 2)]),
      func_updates = []\<rparr>"

definition t2_r :: rdom where
  "t2_r = [ReductionVariable ''r$x'' (IntImm 150 0) (IntImm 151 14),
           ReductionVariable ''r$y'' (IntImm 152 0) (IntImm 153 30)]"

definition t2_loss :: expr where
  "t2_loss = Call 160 ''blur_y'' Halide (Some ''blur_y'')
               [Variable 161 ''r$x'' (Some t2_r), Variable 162 ''r$y'' (Some t2_r)]"

lemma test_simple_bounds_inference:
  "(case bi_inference example_host [t2_input, t2_blur_x, t2_blur_y] 3 t2_loss of
      Some (Inr bi) \<Rightarrow>
        (case (get_func_bounds example_host bi (''blur_y'', -1),
               get_func_bounds example_host bi (''blur_x'', -1),
               get_func_bounds example_host bi (''input'', -1)) of
           (Some [y0, y1], Some [x0, x1], Some [i0, i1]) \<Rightarrow>
             eval C V (rv_min y0) = 0 \<and> eval C V (rv_extent y0) = 14
             \<and> eval C V (rv_min y1) = 0 \<and> eval C V (rv_extent y1) = 30
             \<and> eval C V (rv_min x0) = 0 \<and> eval C V (rv_extent x0) = 14
             \<and> eval C V (rv_min x1) = 0 \<and> eval C V (rv_extent x1) = 32
             \<and> eval C V (rv_min i0) = 0 \<and> eval C V (rv_extent i0) = 16
             \<and> eval C V (rv_min i1) = 0 \<and> eval C V (rv_extent i1) = 32
         | _ \<Rightarrow> False)
    | _ \<Rightarrow> False)"
  by (simp add: example_pass_simps merge_bounds_def op_min_def op_max_def
        var_bounds_loop.simps t2_input_def t2_blur_x_def t2_blur_y_def t2_loss_def t2_r_def
        eval_nat_numeral)

end
